theory Spec2Isabelle
  imports Complex_Main "HOL-Library.Log_Nat"
begin

section \<open>JavaScript numbers: the product of two doubles\<close>

text \<open>
  A JavaScript number is an IEEE 754 double. Numbers that hold integers (rolls, attack,
  defence, hit points, die sizes) are modelled as \<open>int\<close>, and sums and differences of them
  are exact. A number that need not be an integer (a type multiplier, a value of
  \<open>Math.random()\<close>) is modelled as the \<open>real\<close> it denotes, and the product \<open>x * y\<close> of the source
  is \<open>mulDouble x y\<close>: the exact product rounded to the nearest number with 53 significant
  bits, a tie going to the even significand (\<open>roundEven\<close>). \<open>ilog2 x\<close> is the exponent of
  \<open>x\<close>, the integer \<open>e\<close> with \<open>2 ^ e \<le> x < 2 ^ (e + 1)\<close>, and \<open>pow2 e\<close> is \<open>2 ^ e\<close> for an integer
  \<open>e\<close> of either sign. The exponent is not bounded: overflow to \<open>Infinity\<close> (beyond
  \<open>1.7e308\<close>) and the coarser rounding of subnormal numbers (below \<open>2.3e-308\<close>) are outside
  the model.
\<close>

definition roundEven :: "real \<Rightarrow> int" where
  "roundEven q =
     (let f = \<lfloor>q\<rfloor>; r = q - of_int f
      in if r < 1 / 2 then f else if 1 / 2 < r then f + 1 else if even f then f else f + 1)"

definition pow2 :: "int \<Rightarrow> real" where
  "pow2 e = (if 0 \<le> e then 2 ^ nat e else 1 / 2 ^ nat (- e))"

definition ilog2 :: "real \<Rightarrow> int" where
  "ilog2 x = (if 1 \<le> x then bitlen \<lfloor>x\<rfloor> - 1 else - bitlen (\<lceil>1 / x\<rceil> - 1))"

definition roundDouble :: "real \<Rightarrow> real" where
  "roundDouble x =
     (if x = 0 then 0
      else let u = pow2 (ilog2 \<bar>x\<bar> - 52)
           in sgn x * of_int (roundEven (\<bar>x\<bar> / u)) * u)"

definition mulDouble :: "real \<Rightarrow> real \<Rightarrow> real" where
  "mulDouble x y = roundDouble (x * y)"

section \<open>Combat: the damage formula (combat.ts)\<close>

text \<open>
  \<open>raw\<close> is an integer; \<open>Math.max(0, raw) * typeMultiplier\<close> is a product of doubles,
  rounded before \<open>Math.floor\<close> is taken.
\<close>

definition calculateDamage :: "int \<Rightarrow> int \<Rightarrow> int \<Rightarrow> real \<Rightarrow> bool \<Rightarrow> int" where
  "calculateDamage roll attackerAttack defenderDefense typeMultiplier isFirstHitOnDefender =
     (let effectiveDefense =
            (if isFirstHitOnDefender then defenderDefense + 1 else defenderDefense);
          raw = roll + attackerAttack - effectiveDefense
      in \<lfloor>mulDouble (of_int (max 0 raw)) typeMultiplier\<rfloor>)"

section \<open>Type chart (typeChart.ts)\<close>

datatype PokemonType =
  Normal | Fire | Water | Electric | Grass | Ice | Fighting | Poison | Ground | Flying
  | Psychic | Bug | Rock | Ghost | Dragon

definition SE :: real where "SE = 3 / 2"
definition N :: real where "N = 1"
definition RES :: real where "RES = 3 / 4"
definition IMM :: real where "IMM = 0"

definition TYPE_ORDER :: "PokemonType list" where
  "TYPE_ORDER = [Normal, Fire, Water, Electric, Grass, Ice, Fighting, Poison, Ground, Flying,
                 Psychic, Bug, Rock, Ghost, Dragon]"

text \<open>\<open>CHART ! atk ! def\<close>: rows are the attacking type, columns the defending type.\<close>

definition CHART :: "real list list" where
  "CHART =
   [[N,   N,   N,   N,   N,   N,   N,   N,   N,   N,   N,   N,   RES, IMM, N],
    [N,   RES, RES, N,   SE,  SE,  N,   N,   N,   N,   N,   SE,  RES, N,   RES],
    [N,   SE,  RES, N,   RES, N,   N,   N,   SE,  N,   N,   N,   SE,  N,   RES],
    [N,   N,   SE,  RES, RES, N,   N,   N,   IMM, SE,  N,   N,   N,   N,   RES],
    [N,   RES, SE,  N,   RES, N,   N,   RES, SE,  RES, N,   RES, SE,  N,   RES],
    [N,   N,   RES, N,   SE,  RES, N,   N,   SE,  SE,  N,   N,   N,   N,   SE],
    [SE,  N,   N,   N,   N,   SE,  N,   RES, N,   RES, RES, RES, SE,  IMM, N],
    [N,   N,   N,   N,   SE,  N,   N,   RES, RES, N,   N,   SE,  RES, RES, N],
    [N,   SE,  N,   SE,  RES, N,   N,   SE,  N,   IMM, N,   RES, SE,  N,   N],
    [N,   N,   N,   RES, SE,  N,   SE,  N,   N,   N,   N,   SE,  RES, N,   N],
    [N,   N,   N,   N,   N,   N,   SE,  SE,  N,   N,   RES, N,   N,   N,   N],
    [N,   RES, N,   N,   SE,  N,   RES, RES, N,   RES, SE,  N,   N,   RES, N],
    [N,   SE,  N,   N,   N,   SE,  RES, N,   RES, SE,  N,   SE,  N,   N,   N],
    [IMM, N,   N,   N,   N,   N,   N,   N,   N,   N,   N,   N,   N,   SE,  N],
    [N,   N,   N,   N,   N,   N,   N,   N,   N,   N,   N,   N,   N,   N,   SE]]"

text \<open>\<open>typeIndex\<close> is the map built from \<open>TYPE_ORDER\<close>: the position of a type in it.\<close>

fun index_of :: "'a \<Rightarrow> 'a list \<Rightarrow> nat option" where
  "index_of x [] = None"
| "index_of x (y # ys) = (if x = y then Some 0 else map_option Suc (index_of x ys))"

definition typeIndex :: "PokemonType \<Rightarrow> nat option" where
  "typeIndex t = index_of t TYPE_ORDER"

definition getTypeEffectiveness :: "PokemonType \<Rightarrow> PokemonType \<Rightarrow> real" where
  "getTypeEffectiveness atkType defType =
     (case (typeIndex atkType, typeIndex defType) of
        (Some ai, Some di) \<Rightarrow> CHART ! ai ! di
      | _ \<Rightarrow> N)"

definition getTypeMultiplier :: "PokemonType list \<Rightarrow> PokemonType list \<Rightarrow> real" where
  "getTypeMultiplier attackerTypes defenderTypes =
     fold (\<lambda>atkType bestM.
             let m = fold (\<lambda>defType m. mulDouble m (getTypeEffectiveness atkType defType))
                          defenderTypes 1
             in if m > bestM then m else bestM)
          attackerTypes 0"

section \<open>Combat: the duel simulator (combat.ts)\<close>

text \<open>
  \<open>Math.random()\<close> is the only source of randomness. The model takes the numbers it
  returns, each in \<open>[0, 1)\<close>, as a list consumed in order; \<open>rollDie\<close> maps one of them to
  a face of the die.
\<close>

definition rollDie :: "int \<Rightarrow> real \<Rightarrow> int" where
  "rollDie sides u = \<lfloor>mulDouble u (real_of_int sides)\<rfloor> + 1"

record CombatantInfo =
  c_name :: string
  c_types :: "PokemonType list"
  c_hp :: int
  c_attack :: int
  c_defense :: int
  c_die :: int

record CombatLogEntry =
  l_turn :: int
  l_attacker :: string
  l_roll :: int
  l_damage :: int
  l_targetHpAfter :: int

datatype CombatWinner = Attacker | Defender

record CombatResult =
  r_winner :: CombatWinner
  r_log :: "CombatLogEntry list"
  attackerHpRemaining :: int
  defenderHpRemaining :: int

text \<open>The local variables of \<open>resolveCombat\<close> that the loop updates.\<close>

record CombatVars =
  aHp :: int
  dHp :: int
  v_turn :: int
  defenderHitCount :: int
  attackerHitCount :: int
  v_log :: "CombatLogEntry list"

text \<open>
  The \<open>while (aHp > 0 && dHp > 0)\<close> loop. It need not end (two combatants that always
  deal no damage fight forever), so the list of random numbers is also the fuel: \<open>None\<close>
  means the numbers ran out while both combatants were still standing.
\<close>

fun combatLoop ::
  "CombatantInfo \<Rightarrow> CombatantInfo \<Rightarrow> real \<Rightarrow> real \<Rightarrow> CombatVars \<Rightarrow> real list \<Rightarrow> CombatVars option"
where
  "combatLoop attacker defender mAttacker mDefender s rs =
     (if aHp s > 0 \<and> dHp s > 0 then
        (case rs of
           [] \<Rightarrow> None
         | u # rs1 \<Rightarrow>
             let turn1 = v_turn s + 1;
                 aRoll = rollDie (c_die attacker) u;
                 isFirstHitOnDefender = (defenderHitCount s = 0);
                 aDmg = calculateDamage aRoll (c_attack attacker) (c_defense defender)
                          mAttacker isFirstHitOnDefender;
                 s1 = s\<lparr>v_turn := turn1,
                        defenderHitCount := defenderHitCount s + 1,
                        dHp := dHp s - aDmg,
                        v_log := v_log s @
                          [\<lparr>l_turn = turn1, l_attacker = c_name attacker, l_roll = aRoll,
                            l_damage = aDmg, l_targetHpAfter = max 0 (dHp s - aDmg)\<rparr>]\<rparr>
             in if dHp s1 \<le> 0 then Some s1
                else
                  (case rs1 of
                     [] \<Rightarrow> None
                   | u2 # rs2 \<Rightarrow>
                       let dRoll = rollDie (c_die defender) u2;
                           isFirstHitOnAttacker = (attackerHitCount s1 = 0);
                           dDmg = calculateDamage dRoll (c_attack defender) (c_defense attacker)
                                    mDefender isFirstHitOnAttacker;
                           s2 = s1\<lparr>attackerHitCount := attackerHitCount s1 + 1,
                                   aHp := aHp s1 - dDmg,
                                   v_log := v_log s1 @
                                     [\<lparr>l_turn = turn1, l_attacker = c_name defender, l_roll = dRoll,
                                       l_damage = dDmg, l_targetHpAfter = max 0 (aHp s1 - dDmg)\<rparr>]\<rparr>
                       in combatLoop attacker defender mAttacker mDefender s2 rs2))
      else Some s)"

declare combatLoop.simps [simp del]

definition resolveCombat :: "CombatantInfo \<Rightarrow> CombatantInfo \<Rightarrow> real list \<Rightarrow> CombatResult option" where
  "resolveCombat attacker defender rs =
     (let s0 = \<lparr>aHp = c_hp attacker, dHp = c_hp defender, v_turn = 0,
                defenderHitCount = 0, attackerHitCount = 0, v_log = []\<rparr>;
          mAttacker = getTypeMultiplier (c_types attacker) (c_types defender);
          mDefender = getTypeMultiplier (c_types defender) (c_types attacker)
      in case combatLoop attacker defender mAttacker mDefender s0 rs of
           None \<Rightarrow> None
         | Some s \<Rightarrow>
             Some \<lparr>r_winner = (if dHp s \<le> 0 then Attacker else Defender),
                   r_log = v_log s,
                   attackerHpRemaining = max 0 (aHp s),
                   defenderHpRemaining = max 0 (dHp s)\<rparr>)"

section \<open>Combat: auxiliary notions for the analysis of the duel\<close>










section \<open>Balance engine: the exact win probability (balance.ts)\<close>

record CombatConfig =
  hpA :: int
  dieA :: int
  attackA :: int
  defenseA :: int
  hpB :: int
  dieB :: int
  attackB :: int
  defenseB :: int
  typeMultiplierAtoB :: real
  typeMultiplierBtoA :: real

text \<open>
  A damage distribution is a JavaScript \<open>Map\<close> from damage to probability; iteration follows
  insertion order, so it is modelled as an association list in that order. \<open>mapAdd\<close> is
  \<open>dist.set(dmg, (dist.get(dmg) || 0) + prob)\<close>: an existing key keeps its place.
  Probabilities are JavaScript doubles, modelled as exact reals.
\<close>

fun mapAdd :: "(int \<times> real) list \<Rightarrow> int \<Rightarrow> real \<Rightarrow> (int \<times> real) list" where
  "mapAdd [] dmg prob = [(dmg, 0 + prob)]"
| "mapAdd ((k, v) # rest) dmg prob =
     (if k = dmg then (k, v + prob) # rest else (k, v) # mapAdd rest dmg prob)"

definition damageDistribution :: "int \<Rightarrow> int \<Rightarrow> int \<Rightarrow> real \<Rightarrow> bool \<Rightarrow> (int \<times> real) list" where
  "damageDistribution dieSides attackerAttack defenderDefense typeMultiplier defenderGuardActive =
     (let prob = 1 / real_of_int dieSides
      in fold (\<lambda>r dist.
                 mapAdd dist
                   (calculateDamage r attackerAttack defenderDefense typeMultiplier
                      defenderGuardActive)
                   prob)
              [1..dieSides] [])"

text \<open>
  The table \<open>dp\<close> is an array of rows. Three things can go wrong in the source when the
  configuration is not a sensible one (negative hit points, negative multipliers):
  \<open>new Array(hpB + 1)\<close> throws a RangeError for a negative length, \<open>dp[newHA]\<close> is
  \<open>undefined\<close> for a missing row and indexing it throws a TypeError, and a missing column
  reads as \<open>undefined\<close>, after which the sums are NaN. The model stops at the first of these
  events with the corresponding error; \<open>Inr\<close> results are those of runs in which none
  happens.
\<close>

datatype BalanceError = RangeError | TypeError | UndefinedRead

definition dpRead :: "real list list \<Rightarrow> int \<Rightarrow> int \<Rightarrow> BalanceError + real" where
  "dpRead dp i j =
     (if \<not> (0 \<le> i \<and> nat i < length dp) then Inl TypeError
      else if \<not> (0 \<le> j \<and> nat j < length (dp ! nat i)) then Inl UndefinedRead
      else Inr (dp ! nat i ! nat j))"

text \<open>A \<open>for\<close> loop whose body may stop the run with an error.\<close>

fun foldE :: "('a \<Rightarrow> 's \<Rightarrow> 'e + 's) \<Rightarrow> 'a list \<Rightarrow> 's \<Rightarrow> 'e + 's" where
  "foldE f [] s = Inr s"
| "foldE f (x # xs) s = (case f x s of Inl e \<Rightarrow> Inl e | Inr s' \<Rightarrow> foldE f xs s')"

text \<open>Allocation of the table and the base cases \<open>dp[hA][0] = 1\<close> for \<open>hA \<ge> 1\<close>.\<close>

definition dpAlloc :: "int \<Rightarrow> int \<Rightarrow> BalanceError + real list list" where
  "dpAlloc hpA' hpB' =
     (if hpA' < 0 then Inr []
      else if hpB' + 1 < 0 then Inl RangeError
      else Inr (replicate (nat (hpA' + 1)) (replicate (nat (hpB' + 1)) 0)))"

definition setCol0 :: "real list \<Rightarrow> real \<Rightarrow> real list" where
  "setCol0 row v = (case row of [] \<Rightarrow> [v] | _ # rest \<Rightarrow> v # rest)"

definition dpBase :: "int \<Rightarrow> real list list \<Rightarrow> real list list" where
  "dpBase hpA' dp = fold (\<lambda>hA dp. dp[nat hA := setCol0 (dp ! nat hA) 1]) [1..hpA'] dp"

text \<open>
  The two nested \<open>for\<close> loops over the guard-off distributions for one state
  \<open>(hA_val, hB_val)\<close>; they accumulate \<open>(pWin, pLoop)\<close>. \<open>cellInnerBody\<close> is the body of the
  inner loop, over the defender's damage; \<open>cellOuterBody\<close> the body of the outer loop, over
  the attacker's damage.
\<close>

definition cellInnerBody ::
  "real list list \<Rightarrow> int \<Rightarrow> int \<Rightarrow> int \<Rightarrow> real \<Rightarrow> int \<times> real \<Rightarrow> real \<times> real
   \<Rightarrow> BalanceError + real \<times> real" where
  "cellInnerBody dp hA_val hB_val newHB pA entryB acc =
     (case entryB of (dmgB, pB) \<Rightarrow> case acc of (pWin, pLoop) \<Rightarrow>
        let newHA = hA_val - dmgB in
        if newHA \<le> 0 then Inr (pWin, pLoop)
        else if newHA = hA_val \<and> newHB = hB_val then Inr (pWin, pLoop + pA * pB)
        else (case dpRead dp newHA newHB of
                Inl e \<Rightarrow> Inl e
              | Inr v \<Rightarrow> Inr (pWin + pA * pB * v, pLoop)))"

definition cellOuterBody ::
  "real list list \<Rightarrow> (int \<times> real) list \<Rightarrow> int \<Rightarrow> int \<Rightarrow> int \<times> real \<Rightarrow> real \<times> real
   \<Rightarrow> BalanceError + real \<times> real" where
  "cellOuterBody dp distB_guardOff hA_val hB_val entryA acc =
     (case entryA of (dmgA, pA) \<Rightarrow> case acc of (pWin, pLoop) \<Rightarrow>
        let newHB = hB_val - dmgA in
        if newHB \<le> 0 then Inr (pWin + pA, pLoop)
        else foldE (cellInnerBody dp hA_val hB_val newHB pA) distB_guardOff (pWin, pLoop))"

definition cellSums ::
  "real list list \<Rightarrow> (int \<times> real) list \<Rightarrow> (int \<times> real) list \<Rightarrow> int \<Rightarrow> int
   \<Rightarrow> BalanceError + real \<times> real" where
  "cellSums dp distA_guardOff distB_guardOff hA_val hB_val =
     foldE (cellOuterBody dp distB_guardOff hA_val hB_val) distA_guardOff (0, 0)"

definition fillCell ::
  "(int \<times> real) list \<Rightarrow> (int \<times> real) list \<Rightarrow> int \<Rightarrow> int \<Rightarrow> real list list
   \<Rightarrow> BalanceError + real list list" where
  "fillCell distA_guardOff distB_guardOff hB_val hA_val dp =
     (case cellSums dp distA_guardOff distB_guardOff hA_val hB_val of
        Inl e \<Rightarrow> Inl e
      | Inr (pWin, pLoop) \<Rightarrow>
          Inr (dp[nat hA_val := (dp ! nat hA_val)
                 [nat hB_val := (if pLoop \<ge> 1 then 0 else pWin / (1 - pLoop))]]))"

text \<open>Step 1 of \<open>calculateWinProbability\<close>: the table for the states without guards.\<close>

definition dpTable :: "CombatConfig \<Rightarrow> BalanceError + real list list" where
  "dpTable config =
     (let distA_guardOff = damageDistribution (dieA config) (attackA config) (defenseB config)
                             (typeMultiplierAtoB config) False;
          distB_guardOff = damageDistribution (dieB config) (attackB config) (defenseA config)
                             (typeMultiplierBtoA config) False
      in case dpAlloc (hpA config) (hpB config) of
           Inl e \<Rightarrow> Inl e
         | Inr dp0 \<Rightarrow>
             foldE (\<lambda>hB_val dp.
                      foldE (fillCell distA_guardOff distB_guardOff hB_val) [1..hpA config] dp)
                   [1..hpB config] (dpBase (hpA config) dp0))"

text \<open>
  Step 2: the first round, with both guards active, on top of the table; again the inner
  loop body over the defender's damage and the outer one over the attacker's.
\<close>

definition firstInnerBody ::
  "real list list \<Rightarrow> int \<Rightarrow> int \<Rightarrow> real \<Rightarrow> int \<times> real \<Rightarrow> real \<Rightarrow> BalanceError + real" where
  "firstInnerBody dp hpA' newHB pA entryB result =
     (case entryB of (dmgB, pB) \<Rightarrow>
        let newHA = hpA' - dmgB in
        if newHA \<le> 0 then Inr result
        else (case dpRead dp newHA newHB of
                Inl e \<Rightarrow> Inl e
              | Inr v \<Rightarrow> Inr (result + pA * pB * v)))"

definition firstOuterBody ::
  "real list list \<Rightarrow> (int \<times> real) list \<Rightarrow> int \<Rightarrow> int \<Rightarrow> int \<times> real \<Rightarrow> real
   \<Rightarrow> BalanceError + real" where
  "firstOuterBody dp distB_guardOn hpA' hpB' entryA result =
     (case entryA of (dmgA, pA) \<Rightarrow>
        let newHB = hpB' - dmgA in
        if newHB \<le> 0 then Inr (result + pA)
        else foldE (firstInnerBody dp hpA' newHB pA) distB_guardOn result)"

definition firstRound ::
  "real list list \<Rightarrow> (int \<times> real) list \<Rightarrow> (int \<times> real) list \<Rightarrow> int \<Rightarrow> int
   \<Rightarrow> BalanceError + real" where
  "firstRound dp distA_guardOn distB_guardOn hpA' hpB' =
     foldE (firstOuterBody dp distB_guardOn hpA' hpB') distA_guardOn 0"

definition calculateWinProbability :: "CombatConfig \<Rightarrow> BalanceError + real" where
  "calculateWinProbability config =
     (let distA_guardOn = damageDistribution (dieA config) (attackA config) (defenseB config)
                            (typeMultiplierAtoB config) True;
          distB_guardOn = damageDistribution (dieB config) (attackB config) (defenseA config)
                            (typeMultiplierBtoA config) True
      in case dpTable config of
           Inl e \<Rightarrow> Inl e
         | Inr dp \<Rightarrow> firstRound dp distA_guardOn distB_guardOn (hpA config) (hpB config))"

section \<open>Balance engine: auxiliary notions for the analysis of the table\<close>

text \<open>
  \<open>dpShape dp a b\<close>: the table has rows \<open>0..a\<close> and columns \<open>0..b\<close>. \<open>zeroCols dp\<close>: every
  entry outside column 0 is zero.
\<close>

definition dpShape :: "real list list \<Rightarrow> int \<Rightarrow> int \<Rightarrow> bool" where
  "dpShape dp a b = (length dp = nat (a + 1) \<and> (\<forall>row \<in> set dp. length row = nat (b + 1)))"

definition zeroCols :: "real list list \<Rightarrow> bool" where
  "zeroCols dp = (\<forall>i<length dp. \<forall>j. 1 \<le> j \<and> j < length (dp ! i) \<longrightarrow> dp ! i ! j = 0)"

text \<open>
  The quantities of the specification for the state \<open>(hA, hB)\<close> of a table \<open>P\<close>, written as
  sums over the two guard-off distributions: \<open>pLoopSpec\<close> is the probability that both
  combatants deal zero damage, so that the state maps to itself; \<open>pOtherSpec\<close> is the total
  weight of the transitions into already-resolved continuations, each weighted with the
  attacker's win probability there (1 when the defender falls, 0 when the attacker falls,
  the table entry otherwise); \<open>closedForm\<close> is the solution of \<open>P = pLoop * P + pOther\<close>.
  \<open>doneBefore a hA hB\<close> are the states filled before \<open>(hA, hB)\<close> in the order of the two
  loops (column by column), \<open>baseOK\<close> the base cases, \<open>fillInv\<close> the invariant of the fill.
\<close>

definition pLoopSpec :: "(int \<times> real) list \<Rightarrow> (int \<times> real) list \<Rightarrow> real" where
  "pLoopSpec distA distB =
     (\<Sum>(dmgA, pA) \<leftarrow> distA. \<Sum>(dmgB, pB) \<leftarrow> distB.
        if dmgA = 0 \<and> dmgB = 0 then pA * pB else 0)"

definition pOtherSpec ::
  "real list list \<Rightarrow> (int \<times> real) list \<Rightarrow> (int \<times> real) list \<Rightarrow> int \<Rightarrow> int \<Rightarrow> real" where
  "pOtherSpec P distA distB hA hB =
     (\<Sum>(dmgA, pA) \<leftarrow> distA.
        if hB - dmgA \<le> 0 then pA
        else \<Sum>(dmgB, pB) \<leftarrow> distB.
               if hA - dmgB \<le> 0 then 0
               else if dmgA = 0 \<and> dmgB = 0 then 0
               else pA * pB * P ! nat (hA - dmgB) ! nat (hB - dmgA))"

definition closedForm ::
  "real list list \<Rightarrow> (int \<times> real) list \<Rightarrow> (int \<times> real) list \<Rightarrow> int \<Rightarrow> int \<Rightarrow> real" where
  "closedForm P distA distB hA hB =
     (if pLoopSpec distA distB \<ge> 1 then 0
      else pOtherSpec P distA distB hA hB / (1 - pLoopSpec distA distB))"

definition doneBefore :: "int \<Rightarrow> int \<Rightarrow> int \<Rightarrow> int \<Rightarrow> int \<Rightarrow> bool" where
  "doneBefore a hA hB i j = (1 \<le> i \<and> i \<le> a \<and> 1 \<le> j \<and> (j < hB \<or> (j = hB \<and> i < hA)))"

definition baseOK :: "real list list \<Rightarrow> int \<Rightarrow> int \<Rightarrow> bool" where
  "baseOK dp a b = ((\<forall>i. 1 \<le> i \<and> i \<le> a \<longrightarrow> dp ! nat i ! 0 = 1)
                  \<and> (\<forall>j. 0 \<le> j \<and> j \<le> b \<longrightarrow> dp ! 0 ! nat j = 0))"

definition fillInv ::
  "(int \<times> real) list \<Rightarrow> (int \<times> real) list \<Rightarrow> int \<Rightarrow> int \<Rightarrow> real list list \<Rightarrow> int \<Rightarrow> int \<Rightarrow> bool" where
  "fillInv distA distB a b dp hA hB =
     (dpShape dp a b \<and> baseOK dp a b
      \<and> (\<forall>i j. doneBefore a hA hB i j \<longrightarrow> dp ! nat i ! nat j = closedForm dp distA distB i j))"

section \<open>Board and piece model (types.ts)\<close>

datatype PieceClass = Pawn | Knight | Bishop | Rook | Queen | King

datatype Player = White | Black

record Position =
  row :: int
  col :: int

text \<open>
  The \<open>id\<close> of a piece is the string \<open>piece_n\<close> made from the module-level counter; the
  model keeps the number \<open>n\<close> (field \<open>pieceId\<close>). A \<open>null\<close> position is \<open>None\<close>.
\<close>

record GamePiece =
  pieceId :: nat
  pokemonId :: int
  pieceClass :: PieceClass
  owner :: Player
  currentHp :: int
  maxHp :: int
  attack :: int
  defense :: int
  die :: int
  stage :: int
  combatsWon :: int
  speciesMod :: int
  position :: "Position option"

text \<open>
  \<open>BoardState\<close> is an array of rows of squares, \<open>null\<close> being \<open>None\<close>. Every board the engine
  makes is the 8 by 8 grid of \<open>createEmptyBoard\<close> with squares overwritten; \<open>wfBoard\<close> says
  so. The functions of chess.ts read \<open>board[r][c]\<close> only for \<open>r\<close> and \<open>c\<close> in \<open>0..7\<close>, which
  on such a grid is \<open>sq\<close>.
\<close>

type_synonym BoardState = "GamePiece option list list"

definition wfBoard :: "BoardState \<Rightarrow> bool" where
  "wfBoard board = (length board = 8 \<and> (\<forall>r \<in> set board. length r = 8))"

definition sq :: "BoardState \<Rightarrow> int \<Rightarrow> int \<Rightarrow> GamePiece option" where
  "sq board r c = board ! nat r ! nat c"

definition setSq :: "BoardState \<Rightarrow> int \<Rightarrow> int \<Rightarrow> GamePiece option \<Rightarrow> BoardState" where
  "setSq board r c v = board[nat r := (board ! nat r)[nat c := v]]"

section \<open>Move generation and check detection (chess.ts)\<close>

text \<open>
  The optional fields of a move are \<open>None\<close> when absent. \<open>m_from\<close> and \<open>m_to\<close> are the fields
  \<open>from\<close> and \<open>to\<close>.
\<close>

record Move =
  m_from :: Position
  m_to :: Position
  isCapture :: bool
  isEnPassant :: "bool option"
  isCastle :: "bool option"
  promotion :: "PieceClass option"

definition inBounds :: "int \<Rightarrow> int \<Rightarrow> bool" where
  "inBounds r c = (r \<ge> 0 \<and> r < 8 \<and> c \<ge> 0 \<and> c < 8)"

definition getPieceAt :: "BoardState \<Rightarrow> int \<Rightarrow> int \<Rightarrow> GamePiece option" where
  "getPieceAt board r c = (if \<not> inBounds r c then None else sq board r c)"

definition isEnemy :: "GamePiece \<Rightarrow> GamePiece option \<Rightarrow> bool" where
  "isEnemy piece other = (case other of None \<Rightarrow> False | Some p \<Rightarrow> owner p \<noteq> owner piece)"

definition isEmpty :: "BoardState \<Rightarrow> int \<Rightarrow> int \<Rightarrow> bool" where
  "isEmpty board r c = (inBounds r c \<and> sq board r c = None)"

text \<open>The move objects the generators push: \<open>{ from: pos, to: { row, col }, isCapture }\<close>,
  with a promotion class for a pawn reaching the far rank.\<close>

definition mkMove :: "Position \<Rightarrow> int \<Rightarrow> int \<Rightarrow> bool \<Rightarrow> PieceClass option \<Rightarrow> Move" where
  "mkMove pos r c capture promo =
     \<lparr>m_from = pos, m_to = \<lparr>row = r, col = c\<rparr>, isCapture = capture,
      isEnPassant = None, isCastle = None, promotion = promo\<rparr>"

text \<open>Each generator returns the moves it pushes, in the order it pushes them.\<close>

definition generatePawnMoves :: "BoardState \<Rightarrow> GamePiece \<Rightarrow> Position \<Rightarrow> Move list" where
  "generatePawnMoves board piece pos =
     (let dir = (if owner piece = White then - 1 else 1);
          startRow = (if owner piece = White then 6 else 1);
          promoRow = (if owner piece = White then 0 else 7);
          fwd = row pos + dir
      in (if inBounds fwd (col pos) \<and> isEmpty board fwd (col pos) then
            (if fwd = promoRow
             then map (\<lambda>promo. mkMove pos fwd (col pos) False (Some promo))
                    [Queen, Rook, Knight, Bishop]
             else [mkMove pos fwd (col pos) False None])
            @ (let fwd2 = row pos + 2 * dir
               in if row pos = startRow \<and> isEmpty board fwd2 (col pos)
                  then [mkMove pos fwd2 (col pos) False None] else [])
          else [])
         @ concat (map (\<lambda>dc.
                     let nr = fwd; nc = col pos + dc
                     in if inBounds nr nc then
                          (let target = getPieceAt board nr nc
                           in if isEnemy piece target then
                                (if nr = promoRow
                                 then map (\<lambda>promo. mkMove pos nr nc True (Some promo))
                                        [Queen, Rook, Knight, Bishop]
                                 else [mkMove pos nr nc True None])
                              else [])
                        else [])
                   [- 1, 1]))"

text \<open>The body shared by the knight and king loops for one target square \<open>(nr, nc)\<close>.\<close>

definition stepMoves :: "BoardState \<Rightarrow> GamePiece \<Rightarrow> Position \<Rightarrow> int \<Rightarrow> int \<Rightarrow> Move list" where
  "stepMoves board piece pos nr nc =
     (if \<not> inBounds nr nc then []
      else (let target = getPieceAt board nr nc
            in if target = None then [mkMove pos nr nc False None]
               else if isEnemy piece target then [mkMove pos nr nc True None]
               else []))"

definition generateKnightMoves :: "BoardState \<Rightarrow> GamePiece \<Rightarrow> Position \<Rightarrow> Move list" where
  "generateKnightMoves board piece pos =
     concat (map (\<lambda>(dr, dc). stepMoves board piece pos (row pos + dr) (col pos + dc))
               [(- 2, - 1), (- 2, 1), (- 1, - 2), (- 1, 2), (1, - 2), (1, 2), (2, - 1), (2, 1)])"

text \<open>
  One ray of \<open>generateSlidingMoves\<close>: the \<open>while (inBounds(r, c))\<close> loop from the square
  \<open>(r, c)\<close> on. The test that the direction is not \<open>(0, 0)\<close> is not in the source; it makes
  the recursion terminate for every argument, and \<open>getPseudoLegalMoves\<close> passes the eight
  fixed non-zero directions only.
\<close>

function slideRay ::
  "BoardState \<Rightarrow> GamePiece \<Rightarrow> Position \<Rightarrow> int \<Rightarrow> int \<Rightarrow> int \<Rightarrow> int \<Rightarrow> Move list" where
  "slideRay board piece pos dr dc r c =
     (if inBounds r c \<and> (dr \<noteq> 0 \<or> dc \<noteq> 0) then
        (let target = getPieceAt board r c
         in if target = None
            then mkMove pos r c False None # slideRay board piece pos dr dc (r + dr) (c + dc)
            else (if isEnemy piece target then [mkMove pos r c True None] else []))
      else [])"
  by pat_completeness auto
termination
  by (relation "measure (\<lambda>(board, piece, pos, dr, dc, r, c).
          if dr > 0 then nat (8 - r) else if dr < 0 then nat (r + 1)
          else if dc > 0 then nat (8 - c) else nat (c + 1))")
     (auto simp: inBounds_def)

declare slideRay.simps [simp del]

definition generateSlidingMoves ::
  "BoardState \<Rightarrow> GamePiece \<Rightarrow> Position \<Rightarrow> (int \<times> int) list \<Rightarrow> Move list" where
  "generateSlidingMoves board piece pos directions =
     concat (map (\<lambda>(dr, dc). slideRay board piece pos dr dc (row pos + dr) (col pos + dc))
               directions)"

definition generateKingMoves :: "BoardState \<Rightarrow> GamePiece \<Rightarrow> Position \<Rightarrow> Move list" where
  "generateKingMoves board piece pos =
     concat (map (\<lambda>dr. concat (map (\<lambda>dc.
                     if dr = 0 \<and> dc = 0 then []
                     else stepMoves board piece pos (row pos + dr) (col pos + dc))
                   [- 1, 0, 1]))
               [- 1, 0, 1])"

definition getPseudoLegalMoves :: "BoardState \<Rightarrow> GamePiece \<Rightarrow> Position \<Rightarrow> Move list" where
  "getPseudoLegalMoves board piece pos =
     (case pieceClass piece of
        Pawn \<Rightarrow> generatePawnMoves board piece pos
      | Knight \<Rightarrow> generateKnightMoves board piece pos
      | Bishop \<Rightarrow> generateSlidingMoves board piece pos [(- 1, - 1), (- 1, 1), (1, - 1), (1, 1)]
      | Rook \<Rightarrow> generateSlidingMoves board piece pos [(- 1, 0), (1, 0), (0, - 1), (0, 1)]
      | Queen \<Rightarrow> generateSlidingMoves board piece pos
                   [(- 1, - 1), (- 1, 1), (1, - 1), (1, 1), (- 1, 0), (1, 0), (0, - 1), (0, 1)]
      | King \<Rightarrow> generateKingMoves board piece pos)"

text \<open>The squares in the order of the nested loops \<open>for r < 8\<close>, \<open>for c < 8\<close>.\<close>

definition allSquares :: "(int \<times> int) list" where
  "allSquares = concat (map (\<lambda>r. map (\<lambda>c. (r, c)) [0..7]) [0..7])"

definition findKing :: "BoardState \<Rightarrow> Player \<Rightarrow> Position option" where
  "findKing board player =
     map_option (\<lambda>(r, c). \<lparr>row = r, col = c\<rparr>)
       (find (\<lambda>(r, c). case sq board r c of
                          None \<Rightarrow> False
                        | Some p \<Rightarrow> owner p = player \<and> pieceClass p = King)
             allSquares)"

definition isSquareAttacked :: "BoardState \<Rightarrow> Position \<Rightarrow> Player \<Rightarrow> bool" where
  "isSquareAttacked board pos byPlayer =
     list_ex (\<lambda>(r, c). case sq board r c of
                          None \<Rightarrow> False
                        | Some p \<Rightarrow>
                            owner p = byPlayer \<and>
                            list_ex (\<lambda>m. row (m_to m) = row pos \<and> col (m_to m) = col pos
                                          \<and> isCapture m)
                                    (getPseudoLegalMoves board p \<lparr>row = r, col = c\<rparr>))
             allSquares"

definition opponent :: "Player \<Rightarrow> Player" where
  "opponent player = (if player = White then Black else White)"

definition isInCheck :: "BoardState \<Rightarrow> Player \<Rightarrow> bool" where
  "isInCheck board player =
     (case findKing board player of
        None \<Rightarrow> False
      | Some kingPos \<Rightarrow> isSquareAttacked board kingPos (opponent player))"

text \<open>
  \<open>applyMove\<close> copies the rows and writes the two squares. It is called with both squares on
  the grid only (by \<open>getLegalMoves\<close> on generated moves from a scanned square, by \<open>makeMove\<close>
  after the source square and the legality of the target have been checked), where the two
  assignments are list updates.
\<close>

definition applyMove :: "BoardState \<Rightarrow> Move \<Rightarrow> BoardState" where
  "applyMove board move =
     (case sq board (row (m_from move)) (col (m_from move)) of
        None \<Rightarrow> board
      | Some piece \<Rightarrow>
          let movedPiece = piece\<lparr>position := Some \<lparr>row = row (m_to move), col = col (m_to move)\<rparr>\<rparr>;
              movedPiece = (case promotion move of
                              None \<Rightarrow> movedPiece
                            | Some cls \<Rightarrow> movedPiece\<lparr>pieceClass := cls\<rparr>);
              newBoard = setSq board (row (m_from move)) (col (m_from move)) None
          in setSq newBoard (row (m_to move)) (col (m_to move)) (Some movedPiece))"

definition getLegalMoves :: "BoardState \<Rightarrow> GamePiece \<Rightarrow> Position \<Rightarrow> Move list" where
  "getLegalMoves board piece pos =
     filter (\<lambda>move. \<not> isInCheck (applyMove board move) (owner piece))
            (getPseudoLegalMoves board piece pos)"

text \<open>The scan shared by \<open>isCheckmate\<close> and \<open>isStalemate\<close>: no piece of the player has a
  legal move.\<close>

definition noLegalMoves :: "BoardState \<Rightarrow> Player \<Rightarrow> bool" where
  "noLegalMoves board player =
     list_all (\<lambda>(r, c). case sq board r c of
                           None \<Rightarrow> True
                         | Some p \<Rightarrow>
                             owner p = player \<longrightarrow>
                             \<not> length (getLegalMoves board p \<lparr>row = r, col = c\<rparr>) > 0)
              allSquares"

definition isCheckmate :: "BoardState \<Rightarrow> Player \<Rightarrow> bool" where
  "isCheckmate board player =
     (if \<not> isInCheck board player then False else noLegalMoves board player)"

definition isStalemate :: "BoardState \<Rightarrow> Player \<Rightarrow> bool" where
  "isStalemate board player =
     (if isInCheck board player then False else noLegalMoves board player)"

definition createEmptyBoard :: BoardState where
  "createEmptyBoard = replicate 8 (replicate 8 None)"

section \<open>Class statistics and pawn evolution (combat.ts)\<close>

record PieceStats =
  st_hp :: int
  st_die :: int
  st_attack :: int
  st_defense :: int

definition BASE_STATS :: "PieceClass \<Rightarrow> PieceStats" where
  "BASE_STATS cls =
     (case cls of
        Pawn \<Rightarrow> \<lparr>st_hp = 33, st_die = 6, st_attack = 1, st_defense = 3\<rparr>
      | Knight \<Rightarrow> \<lparr>st_hp = 41, st_die = 6, st_attack = 1, st_defense = 3\<rparr>
      | Bishop \<Rightarrow> \<lparr>st_hp = 41, st_die = 6, st_attack = 1, st_defense = 3\<rparr>
      | Rook \<Rightarrow> \<lparr>st_hp = 46, st_die = 6, st_attack = 1, st_defense = 3\<rparr>
      | Queen \<Rightarrow> \<lparr>st_hp = 51, st_die = 6, st_attack = 1, st_defense = 3\<rparr>
      | King \<Rightarrow> \<lparr>st_hp = 36, st_die = 6, st_attack = 1, st_defense = 3\<rparr>)"

definition DIE_PROGRESSION :: "int list" where
  "DIE_PROGRESSION = [6, 8, 10, 12]"

definition upgradeDie :: "int \<Rightarrow> int" where
  "upgradeDie currentDie =
     (case index_of currentDie DIE_PROGRESSION of
        None \<Rightarrow> currentDie
      | Some idx \<Rightarrow>
          if idx = length DIE_PROGRESSION - 1 then currentDie
          else DIE_PROGRESSION ! (idx + 1))"

datatype ModTarget = AttackTarget | DefenseTarget

text \<open>The \<open>for (i = 0; i < stage; i++)\<close> loop runs \<open>stage\<close> times (not at all for a
  non-positive \<open>stage\<close>).\<close>

definition getStatsWithEvolution ::
  "PieceClass \<Rightarrow> int \<Rightarrow> int \<Rightarrow> ModTarget \<Rightarrow> bool \<Rightarrow> PieceStats" where
  "getStatsWithEvolution cls stg spMod spModTarget isMewtwoKing =
     (let base = BASE_STATS cls;
          base = (if cls = Pawn
                  then ((\<lambda>s. s\<lparr>st_hp := st_hp s + 4, st_die := upgradeDie (st_die s)\<rparr>) ^^ nat stg) base
                  else base);
          base = (if spModTarget = AttackTarget
                  then base\<lparr>st_attack := st_attack base + spMod\<rparr>
                  else base\<lparr>st_defense := st_defense base + spMod\<rparr>);
          base = (if isMewtwoKing then base\<lparr>st_defense := st_defense base - 1\<rparr> else base)
      in base\<lparr>st_attack := max 0 (st_attack base), st_defense := max 0 (st_defense base)\<rparr>)"

section \<open>Game state machine (game.ts)\<close>

text \<open>
  The species catalogue and the classifier are not part of the kernel; the model takes the
  two lookups it uses as parameters, with the fields the kernel reads: \<open>getPokemonById\<close>
  (\<open>undefined\<close> is \<open>None\<close>) and \<open>getClassification\<close>.
\<close>

record PokemonData =
  pd_id :: int
  pd_name :: string
  pd_types :: "PokemonType list"

record Classification =
  cl_speciesMod :: int
  cl_speciesModTarget :: ModTarget

record Catalogue =
  getPokemonById :: "int \<Rightarrow> PokemonData option"
  getClassification :: "int \<Rightarrow> Classification option"

record TeamSlot =
  slotPokemonId :: int
  slotPieceClass :: PieceClass

datatype GamePhase = Playing | Combat | Checkmate | Stalemate

record PendingCombat =
  p_attacker :: GamePiece
  p_defender :: GamePiece
  p_move :: Move

record GameState =
  board :: BoardState
  currentPlayer :: Player
  phase :: GamePhase
  moveHistory :: "Move list"
  turnNumber :: int
  pendingCombat :: "PendingCombat option"
  lastCombatResult :: "CombatResult option"
  winner :: "Player option"

text \<open>
  What the functions of game.ts throw. \<open>JsTypeError\<close> is the error of reading a property of
  \<open>undefined\<close> (a row outside the board, a species missing from the catalogue).
  \<open>OffGridWrite\<close> marks an assignment to a column outside a row, where the source would
  grow the row and the board would stop being a grid; it cannot happen for a pending move
  stored by \<open>makeMove\<close>.
\<close>

datatype GameError =
  PokemonNotFound | InvalidPiece | IllegalMove | NoPieceToCapture | NoPendingCombat
  | JsTypeError | OffGridWrite

definition PIECE_ORDER :: "PieceClass list" where
  "PIECE_ORDER = [Rook, Knight, Bishop, Queen, King, Bishop, Knight, Rook]"

text \<open>\<open>createGamePiece\<close> takes the counter \<open>pieceIdCounter\<close> and returns it incremented.\<close>

definition createGamePiece ::
  "Catalogue \<Rightarrow> TeamSlot \<Rightarrow> Player \<Rightarrow> Position \<Rightarrow> nat \<Rightarrow> GameError + GamePiece \<times> nat" where
  "createGamePiece cat slot ownr pos pieceIdCounter =
     (case getPokemonById cat (slotPokemonId slot) of
        None \<Rightarrow> Inl PokemonNotFound
      | Some pokemon \<Rightarrow>
          let classification = getClassification cat (slotPokemonId slot);
              spMod = (case classification of None \<Rightarrow> 0 | Some c \<Rightarrow> cl_speciesMod c);
              spModTarget = (case classification of
                               None \<Rightarrow> DefenseTarget | Some c \<Rightarrow> cl_speciesModTarget c);
              isMewtwoKing = (pd_id pokemon = 150 \<and> slotPieceClass slot = King);
              stats = getStatsWithEvolution (slotPieceClass slot) 0 spMod spModTarget isMewtwoKing
          in Inr (\<lparr>pieceId = pieceIdCounter + 1,
                    pokemonId = slotPokemonId slot,
                    pieceClass = slotPieceClass slot,
                    owner = ownr,
                    currentHp = st_hp stats,
                    maxHp = st_hp stats,
                    attack = st_attack stats,
                    defense = st_defense stats,
                    die = st_die stats,
                    stage = 0,
                    combatsWon = 0,
                    speciesMod = spMod,
                    position = Some pos\<rparr>,
                  pieceIdCounter + 1))"

definition getSlotsByClass :: "TeamSlot list \<Rightarrow> PieceClass \<Rightarrow> TeamSlot list" where
  "getSlotsByClass slots cls = filter (\<lambda>s. slotPieceClass s = cls) slots"

text \<open>The back rank: for each class of \<open>PIECE_ORDER\<close> the first slot of that class, if any.\<close>

definition backRank :: "TeamSlot list \<Rightarrow> TeamSlot list" where
  "backRank slots =
     concat (map (\<lambda>cls. case getSlotsByClass slots cls of [] \<Rightarrow> [] | s # _ \<Rightarrow> [s])
               PIECE_ORDER)"

text \<open>
  \<open>slots.forEach((slot, col) => { if (col < limit) board[r][col] = createGamePiece(...) })\<close>,
  on the pair of the board and the counter.
\<close>

definition placeRow ::
  "Catalogue \<Rightarrow> Player \<Rightarrow> int \<Rightarrow> TeamSlot list \<Rightarrow> BoardState \<times> nat
   \<Rightarrow> GameError + BoardState \<times> nat" where
  "placeRow cat ownr r slots =
     foldE (\<lambda>(slot, c) (bd, counter).
              if int c < 8 then
                (case createGamePiece cat slot ownr \<lparr>row = r, col = int c\<rparr> counter of
                   Inl e \<Rightarrow> Inl e
                 | Inr (piece, counter') \<Rightarrow> Inr (setSq bd r (int c) (Some piece), counter'))
              else Inr (bd, counter))
          (zip slots [0..<length slots])"

definition setupBoard :: "Catalogue \<Rightarrow> TeamSlot list \<Rightarrow> TeamSlot list \<Rightarrow> GameError + BoardState" where
  "setupBoard cat whiteSlots blackSlots =
     (let whitePawns = getSlotsByClass whiteSlots Pawn;
          whiteBack = backRank whiteSlots;
          blackPawns = getSlotsByClass blackSlots Pawn;
          blackBack = backRank blackSlots
      in case placeRow cat White 7 whiteBack (createEmptyBoard, 0) of
           Inl e \<Rightarrow> Inl e
         | Inr s1 \<Rightarrow>
        (case placeRow cat White 6 whitePawns s1 of
           Inl e \<Rightarrow> Inl e
         | Inr s2 \<Rightarrow>
        (case placeRow cat Black 0 blackBack s2 of
           Inl e \<Rightarrow> Inl e
         | Inr s3 \<Rightarrow>
        (case placeRow cat Black 1 blackPawns s3 of
           Inl e \<Rightarrow> Inl e
         | Inr (bd, counter) \<Rightarrow> Inr bd))))"

definition createGame :: "Catalogue \<Rightarrow> TeamSlot list \<Rightarrow> TeamSlot list \<Rightarrow> GameError + GameState" where
  "createGame cat whiteSlots blackSlots =
     (case setupBoard cat whiteSlots blackSlots of
        Inl e \<Rightarrow> Inl e
      | Inr b \<Rightarrow>
          Inr \<lparr>board = b, currentPlayer = White, phase = Playing, moveHistory = [],
               turnNumber = 1, pendingCombat = None, lastCombatResult = None, winner = None\<rparr>)"

definition kingExists :: "BoardState \<Rightarrow> Player \<Rightarrow> bool" where
  "kingExists newBoard player =
     list_ex (\<lambda>r. list_ex (\<lambda>p. case p of
                                  None \<Rightarrow> False
                                | Some q \<Rightarrow> owner q = player \<and> pieceClass q = King) r)
             newBoard"

definition advanceTurn :: "GameState \<Rightarrow> BoardState \<Rightarrow> Move \<Rightarrow> GameState" where
  "advanceTurn state newBoard mv =
     (let nextPlayer = (if currentPlayer state = White then Black else White);
          (phase1, winner1) =
             (if isCheckmate newBoard nextPlayer then (Checkmate, Some (currentPlayer state))
              else if isStalemate newBoard nextPlayer then (Stalemate, None)
              else (Playing, None));
          whiteKingExists = kingExists newBoard White;
          blackKingExists = kingExists newBoard Black;
          (phase2, winner2) =
             (if \<not> whiteKingExists then (Checkmate, Some Black)
              else if \<not> blackKingExists then (Checkmate, Some White)
              else (phase1, winner1))
      in state\<lparr>board := newBoard,
               currentPlayer := nextPlayer,
               phase := phase2,
               moveHistory := moveHistory state @ [mv],
               turnNumber := turnNumber state + (if currentPlayer state = Black then 1 else 0),
               pendingCombat := None,
               winner := winner2\<rparr>)"

text \<open>
  \<open>board[pos.row][pos.col]\<close> without a bounds test, as \<open>makeMove\<close> reads it: a missing row
  throws, a missing column reads as \<open>undefined\<close>, which the source treats like \<open>null\<close>.
\<close>

definition readSquare :: "BoardState \<Rightarrow> Position \<Rightarrow> GameError + GamePiece option" where
  "readSquare b pos =
     (if \<not> (0 \<le> row pos \<and> nat (row pos) < length b) then Inl JsTypeError
      else if \<not> (0 \<le> col pos \<and> nat (col pos) < length (b ! nat (row pos))) then Inr None
      else Inr (sq b (row pos) (col pos)))"

definition writeSquare :: "BoardState \<Rightarrow> Position \<Rightarrow> GamePiece option \<Rightarrow> GameError + BoardState" where
  "writeSquare b pos v =
     (if \<not> (0 \<le> row pos \<and> nat (row pos) < length b) then Inl JsTypeError
      else if \<not> (0 \<le> col pos \<and> nat (col pos) < length (b ! nat (row pos))) then Inl OffGridWrite
      else Inr (setSq b (row pos) (col pos) v))"

definition makeMove :: "GameState \<Rightarrow> Move \<Rightarrow> GameError + GameState" where
  "makeMove state mv =
     (case readSquare (board state) (m_from mv) of
        Inl e \<Rightarrow> Inl e
      | Inr None \<Rightarrow> Inl InvalidPiece
      | Inr (Some piece) \<Rightarrow>
          if owner piece \<noteq> currentPlayer state then Inl InvalidPiece
          else
            let legalMoves = getLegalMoves (board state) piece (m_from mv);
                isLegal = list_ex (\<lambda>m. row (m_to m) = row (m_to mv) \<and> col (m_to m) = col (m_to mv)
                                        \<and> promotion m = promotion mv) legalMoves
            in if \<not> isLegal then Inl IllegalMove
               else if isCapture mv then
                 (case readSquare (board state) (m_to mv) of
                    Inl e \<Rightarrow> Inl e
                  | Inr None \<Rightarrow> Inl NoPieceToCapture
                  | Inr (Some dfn) \<Rightarrow>
                      Inr (state\<lparr>phase := Combat,
                                 pendingCombat :=
                                   Some \<lparr>p_attacker = piece, p_defender = dfn, p_move = mv\<rparr>\<rparr>))
               else Inr (advanceTurn state (applyMove (board state) mv) mv))"

text \<open>
  The block \<open>Evolucion de peon\<close>, which the source repeats for the winning attacker and the
  winning defender: \<open>p\<close> is the winner with \<open>combatsWon\<close> already incremented.
\<close>

definition pawnEvolution :: "Catalogue \<Rightarrow> GamePiece \<Rightarrow> GamePiece" where
  "pawnEvolution cat p =
     (if pieceClass p = Pawn then
        (let canEvolve = (combatsWon p \<le> 2 \<and> stage p < 2)
         in if canEvolve \<and> combatsWon p > stage p then
              (let p1 = p\<lparr>stage := stage p + 1\<rparr>;
                   classification = getClassification cat (pokemonId p1);
                   sm = (case classification of None \<Rightarrow> 0 | Some c \<Rightarrow> cl_speciesMod c);
                   smTarget = (case classification of
                                 None \<Rightarrow> DefenseTarget | Some c \<Rightarrow> cl_speciesModTarget c);
                   newStats = getStatsWithEvolution Pawn (stage p1) sm smTarget False
               in p1\<lparr>maxHp := st_hp newStats,
                      currentHp := st_hp newStats,
                      attack := st_attack newStats,
                      defense := st_defense newStats,
                      die := st_die newStats\<rparr>)
            else p)
      else p)"

text \<open>
  \<open>resolvePendingCombat\<close> takes the random numbers the duel consumes. \<open>None\<close>: they ran out
  before the duel ended. \<open>Some (Inl e)\<close>: the source throws. \<open>Some (Inr s)\<close>: it returns \<open>s\<close>.
\<close>

definition resolvePendingCombat ::
  "Catalogue \<Rightarrow> GameState \<Rightarrow> real list \<Rightarrow> (GameError + GameState) option" where
  "resolvePendingCombat cat state rs =
     (case pendingCombat state of
        None \<Rightarrow> Some (Inl NoPendingCombat)
      | Some pc \<Rightarrow>
          let atk = p_attacker pc; dfn = p_defender pc; mv = p_move pc in
          (case (getPokemonById cat (pokemonId atk), getPokemonById cat (pokemonId dfn)) of
             (Some atkPokemon, Some defPokemon) \<Rightarrow>
               let atkInfo = \<lparr>c_name = pd_name atkPokemon, c_types = pd_types atkPokemon,
                              c_hp = currentHp atk, c_attack = attack atk,
                              c_defense = defense atk, c_die = die atk\<rparr>;
                   defInfo = \<lparr>c_name = pd_name defPokemon, c_types = pd_types defPokemon,
                              c_hp = currentHp dfn, c_attack = attack dfn,
                              c_defense = defense dfn, c_die = die dfn\<rparr>
               in (case resolveCombat atkInfo defInfo rs of
                     None \<Rightarrow> None
                   | Some result \<Rightarrow>
                       let updated =
                             (if r_winner result = Attacker
                              then pawnEvolution cat
                                     (atk\<lparr>currentHp := attackerHpRemaining result,
                                          combatsWon := combatsWon atk + 1,
                                          position := Some \<lparr>row = row (m_to mv),
                                                            col = col (m_to mv)\<rparr>\<rparr>)
                              else pawnEvolution cat
                                     (dfn\<lparr>currentHp := defenderHpRemaining result,
                                          combatsWon := combatsWon dfn + 1\<rparr>))
                       in (case writeSquare (board state) (m_from mv) None of
                             Inl e \<Rightarrow> Some (Inl e)
                           | Inr b1 \<Rightarrow>
                               (case writeSquare b1 (m_to mv) (Some updated) of
                                  Inl e \<Rightarrow> Some (Inl e)
                                | Inr newBoard \<Rightarrow>
                                    Some (Inr (advanceTurn
                                                 (state\<lparr>lastCombatResult := Some result,
                                                        pendingCombat := None\<rparr>)
                                                 newBoard mv)))))
           | _ \<Rightarrow> Some (Inl JsTypeError)))"

section \<open>Chess and game: auxiliary notions\<close>

text \<open>
  \<open>moveOK b p pos m\<close>: what every move generated for the piece \<open>p\<close> standing on \<open>pos\<close>
  satisfies: it starts on \<open>pos\<close>, ends on the grid, is flagged as a capture exactly when
  the target square holds a piece, which then is an enemy piece, and carries a promotion
  class (never Pawn or King) only for a pawn.
\<close>

definition moveOK :: "BoardState \<Rightarrow> GamePiece \<Rightarrow> Position \<Rightarrow> Move \<Rightarrow> bool" where
  "moveOK b p pos m =
     (m_from m = pos \<and> inBounds (row (m_to m)) (col (m_to m))
      \<and> (if isCapture m
          then (\<exists>d. sq b (row (m_to m)) (col (m_to m)) = Some d \<and> owner d \<noteq> owner p)
          else sq b (row (m_to m)) (col (m_to m)) = None)
      \<and> promotion m \<in> {None, Some Queen, Some Rook, Some Knight, Some Bishop}
      \<and> (promotion m \<noteq> None \<longrightarrow> pieceClass p = Pawn))"

section \<open>Reachable game states\<close>

text \<open>
  A game state is reachable when it is the result of \<open>createGame\<close> or is obtained from a
  reachable state by an accepted \<open>makeMove\<close> or an accepted \<open>resolvePendingCombat\<close>, for any
  teams, any moves and any sequence of die rolls. These are the only states the program
  constructs.

  \<open>gameInv\<close> is the invariant of reachable states: the board is an 8 by 8 grid, every piece
  stores the coordinates of its square, a Pawn's stage, die and maximum hit points follow its
  win counter (\<open>pawnOK\<close>), no identifier occurs on two squares, and a pending combat is a
  snapshot of two on-board squares. \<open>winnerPiece\<close> names the piece that
  \<open>resolvePendingCombat\<close> writes to the target square, and \<open>placeInv\<close> is the invariant of the
  placement loops of \<open>setupBoard\<close>.
\<close>

inductive reachable :: "Catalogue \<Rightarrow> GameState \<Rightarrow> bool" for cat :: Catalogue where
  created: "createGame cat whiteSlots blackSlots = Inr st \<Longrightarrow> reachable cat st"
| moved: "reachable cat st \<Longrightarrow> makeMove st mv = Inr st' \<Longrightarrow> reachable cat st'"
| resolved: "reachable cat st \<Longrightarrow> resolvePendingCombat cat st rs = Some (Inr st')
             \<Longrightarrow> reachable cat st'"

definition pawnOK :: "GamePiece \<Rightarrow> bool" where
  "pawnOK p = (0 \<le> combatsWon p \<and> stage p = min (combatsWon p) 2
               \<and> die p = DIE_PROGRESSION ! nat (stage p)
               \<and> maxHp p = st_hp (BASE_STATS Pawn) + 4 * stage p)"

definition pieceOK :: "int \<Rightarrow> int \<Rightarrow> GamePiece \<Rightarrow> bool" where
  "pieceOK r c p = (position p = Some \<lparr>row = r, col = c\<rparr> \<and> (pieceClass p = Pawn \<longrightarrow> pawnOK p))"

definition piecesOK :: "BoardState \<Rightarrow> bool" where
  "piecesOK b = (\<forall>r c p. inBounds r c \<and> sq b r c = Some p \<longrightarrow> pieceOK r c p)"

definition idsOK :: "BoardState \<Rightarrow> bool" where
  "idsOK b = (\<forall>r c r' c' p p'. inBounds r c \<and> inBounds r' c' \<and> sq b r c = Some p
                \<and> sq b r' c' = Some p' \<and> pieceId p = pieceId p' \<longrightarrow> r = r' \<and> c = c')"

definition pendingOK :: "GameState \<Rightarrow> bool" where
  "pendingOK st =
     (\<forall>pc. pendingCombat st = Some pc \<longrightarrow>
        inBounds (row (m_from (p_move pc))) (col (m_from (p_move pc)))
      \<and> inBounds (row (m_to (p_move pc))) (col (m_to (p_move pc)))
      \<and> sq (board st) (row (m_from (p_move pc))) (col (m_from (p_move pc))) = Some (p_attacker pc)
      \<and> sq (board st) (row (m_to (p_move pc))) (col (m_to (p_move pc))) = Some (p_defender pc))"

definition gameInv :: "GameState \<Rightarrow> bool" where
  "gameInv st = (wfBoard (board st) \<and> piecesOK (board st) \<and> idsOK (board st) \<and> pendingOK st)"

definition combatantOf :: "PokemonData \<Rightarrow> GamePiece \<Rightarrow> CombatantInfo" where
  "combatantOf pokemon p =
     \<lparr>c_name = pd_name pokemon, c_types = pd_types pokemon, c_hp = currentHp p,
      c_attack = attack p, c_defense = defense p, c_die = die p\<rparr>"

definition winnerPiece :: "Catalogue \<Rightarrow> PendingCombat \<Rightarrow> CombatResult \<Rightarrow> GamePiece" where
  "winnerPiece cat pc result =
     (if r_winner result = Attacker
      then pawnEvolution cat
             ((p_attacker pc)\<lparr>currentHp := attackerHpRemaining result,
                  combatsWon := combatsWon (p_attacker pc) + 1,
                  position := Some \<lparr>row = row (m_to (p_move pc)), col = col (m_to (p_move pc))\<rparr>\<rparr>)
      else pawnEvolution cat
             ((p_defender pc)\<lparr>currentHp := defenderHpRemaining result,
                  combatsWon := combatsWon (p_defender pc) + 1\<rparr>))"

definition placeInv :: "BoardState \<times> nat \<Rightarrow> bool" where
  "placeInv s = (wfBoard (fst s) \<and> piecesOK (fst s) \<and> idsOK (fst s)
                 \<and> (\<forall>r c p. inBounds r c \<and> sq (fst s) r c = Some p \<longrightarrow> pieceId p \<le> snd s))"

section \<open>An example position\<close>

text \<open>
  The position of the specification's example: a white King, a black King and a black Pawn,
  Black to move, the Pawn attacking the white King diagonally. The catalogue knows every
  species as a Normal type without classification. \<open>exPiece\<close> is a fresh piece with the
  baseline statistics of its class.
\<close>

definition exCatalogue :: Catalogue where
  "exCatalogue =
     \<lparr>getPokemonById = (\<lambda>i. Some \<lparr>pd_id = i, pd_name = ''p'', pd_types = [Normal]\<rparr>),
      getClassification = (\<lambda>i. None)\<rparr>"

definition exPiece :: "nat \<Rightarrow> PieceClass \<Rightarrow> Player \<Rightarrow> int \<Rightarrow> int \<Rightarrow> GamePiece" where
  "exPiece n cls ownr r c =
     \<lparr>pieceId = n, pokemonId = 1, pieceClass = cls, owner = ownr,
      currentHp = st_hp (BASE_STATS cls), maxHp = st_hp (BASE_STATS cls),
      attack = 1, defense = 3, die = 6, stage = 0, combatsWon = 0, speciesMod = 0,
      position = Some \<lparr>row = r, col = c\<rparr>\<rparr>"

definition exBoard :: BoardState where
  "exBoard =
     setSq (setSq (setSq createEmptyBoard
        4 4 (Some ((exPiece 1 King White 4 4)\<lparr>currentHp := 1\<rparr>)))
        0 0 (Some (exPiece 2 King Black 0 0)))
        3 3 (Some (exPiece 3 Pawn Black 3 3))"

definition exState :: GameState where
  "exState =
     \<lparr>board = exBoard, currentPlayer = Black, phase = Playing, moveHistory = [],
      turnNumber = 1, pendingCombat = None, lastCombatResult = None, winner = None\<rparr>"

definition exCapture :: Move where
  "exCapture = mkMove \<lparr>row = 3, col = 3\<rparr> 4 4 True None"

definition exPush :: Move where
  "exPush = mkMove \<lparr>row = 3, col = 3\<rparr> 4 3 False None"

section \<open>An example game\<close>

text \<open>
  \<open>playFrom\<close> runs a list of calls (\<open>makeMove\<close> or \<open>resolvePendingCombat\<close> with its die
  rolls) from the result of \<open>createGame\<close> and stops at the first rejected call. In the example
  game each side has a King and White has one Pawn against two black Pawns; the white Pawn
  advances, captures a black Pawn and wins with the rolls \<open>exRolls\<close> (the attacker always
  rolls high, the defender always rolls 1), and then captures the second black Pawn.
\<close>

datatype Action = DoMove Move | DoResolve "real list"

fun playFrom :: "Catalogue \<Rightarrow> GameError + GameState \<Rightarrow> Action list \<Rightarrow> GameState option" where
  "playFrom cat (Inl e) acts = None"
| "playFrom cat (Inr st) [] = Some st"
| "playFrom cat (Inr st) (DoMove mv # acts) = playFrom cat (makeMove st mv) acts"
| "playFrom cat (Inr st) (DoResolve rs # acts) =
     (case resolvePendingCombat cat st rs of
        None \<Rightarrow> None
      | Some r \<Rightarrow> playFrom cat r acts)"

definition exWhite :: "TeamSlot list" where
  "exWhite = [\<lparr>slotPokemonId = 1, slotPieceClass = King\<rparr>,
              \<lparr>slotPokemonId = 2, slotPieceClass = Pawn\<rparr>]"

definition exBlack :: "TeamSlot list" where
  "exBlack = [\<lparr>slotPokemonId = 3, slotPieceClass = King\<rparr>,
              \<lparr>slotPokemonId = 4, slotPieceClass = Pawn\<rparr>,
              \<lparr>slotPokemonId = 5, slotPieceClass = Pawn\<rparr>]"

definition exRolls :: "real \<Rightarrow> nat \<Rightarrow> real list" where
  "exRolls u n = concat (replicate n [u, 0]) @ [u]"

definition exOpening :: "Action list" where
  "exOpening =
     [DoMove (mkMove \<lparr>row = 6, col = 0\<rparr> 4 0 False None),
      DoMove (mkMove \<lparr>row = 1, col = 1\<rparr> 3 1 False None),
      DoMove (mkMove \<lparr>row = 4, col = 0\<rparr> 3 1 True None)]"

definition exSecond :: "Action list" where
  "exSecond =
     exOpening @
     [DoResolve (exRolls (5 / 6) 8),
      DoMove (mkMove \<lparr>row = 1, col = 0\<rparr> 2 0 False None),
      DoMove (mkMove \<lparr>row = 3, col = 1\<rparr> 2 0 True None)]"

section \<open>Rounding to a double: bounds, monotonicity, exact cases\<close>

lemma roundEven_of_int [simp]: "roundEven (of_int k) = k"
  by (simp add: roundEven_def)

lemma roundEven_bounds: "\<lfloor>q\<rfloor> \<le> roundEven q \<and> roundEven q \<le> \<lfloor>q\<rfloor> + 1"
  by (simp add: roundEven_def Let_def)

lemma roundEven_mono:
  assumes "q \<le> q'"
  shows "roundEven q \<le> roundEven q'"
proof -
  from assms have f: "\<lfloor>q\<rfloor> \<le> \<lfloor>q'\<rfloor>" by (rule floor_mono)
  show ?thesis
  proof (cases "\<lfloor>q\<rfloor> = \<lfloor>q'\<rfloor>")
    case True
    with assms show ?thesis by (auto simp: roundEven_def Let_def)
  next
    case False
    with f have "\<lfloor>q\<rfloor> + 1 \<le> \<lfloor>q'\<rfloor>" by simp
    with roundEven_bounds [of q] roundEven_bounds [of q'] show ?thesis by linarith
  qed
qed

lemma pow2_powr: "pow2 e = 2 powr (of_int e)"
proof (cases "0 \<le> e")
  case True
  then have "2 powr (of_int e) = (2::real) powr (real (nat e))" by simp
  also have "\<dots> = 2 ^ nat e" by (simp add: powr_realpow)
  finally show ?thesis using True by (simp add: pow2_def)
next
  case False
  then have "(2::real) powr (of_int e) = 2 powr (- real (nat (- e)))" by simp
  also have "\<dots> = 1 / 2 powr (real (nat (- e)))" by (simp add: powr_minus_divide)
  also have "\<dots> = 1 / 2 ^ nat (- e)" by (simp add: powr_realpow)
  finally show ?thesis using False by (simp add: pow2_def)
qed

lemma pow2_pos [simp]: "0 < pow2 e"
  by (simp add: pow2_powr)

lemma pow2_nonneg [simp]: "0 \<le> pow2 e"
  by (simp add: pow2_powr)

lemma pow2_neq_0 [simp]: "pow2 e \<noteq> 0"
  by (simp add: pow2_powr)

lemma pow2_add: "pow2 (a + b) = pow2 a * pow2 b"
  by (simp add: pow2_powr powr_add)

lemma pow2_mono: "a \<le> b \<Longrightarrow> pow2 a \<le> pow2 b"
  by (simp add: pow2_powr)

lemma pow2_less_iff: "pow2 a < pow2 b \<longleftrightarrow> a < b"
  by (simp add: pow2_powr)

lemma pow2_nat: "0 \<le> e \<Longrightarrow> pow2 e = 2 ^ nat e"
  by (simp add: pow2_def)

lemma pow2_0 [simp]: "pow2 0 = 1"
  by (simp add: pow2_def)

lemma pow2_1 [simp]: "pow2 1 = 2"
  by (simp add: pow2_def)

lemma pow2_Suc: "pow2 (e + 1) = 2 * pow2 e"
  using pow2_add [of e 1] by simp

lemma ilog2_bounds:
  assumes "0 < x"
  shows "pow2 (ilog2 x) \<le> x \<and> x < pow2 (ilog2 x + 1)"
proof (cases "1 \<le> x")
  case True
  then have p: "0 < \<lfloor>x\<rfloor>" by simp
  let ?b = "bitlen \<lfloor>x\<rfloor>"
  from p have b1: "1 \<le> ?b" by (auto simp: bitlen_alt_def)
  from bitlen_bounds [OF p] have lo: "2 ^ nat (?b - 1) \<le> \<lfloor>x\<rfloor>" and hi: "\<lfloor>x\<rfloor> < 2 ^ nat ?b"
    by simp_all
  from lo have "real_of_int (2 ^ nat (?b - 1)) \<le> of_int \<lfloor>x\<rfloor>" by (simp only: of_int_le_iff)
  then have l: "(2::real) ^ nat (?b - 1) \<le> x" by (simp add: le_floor_iff)
  from hi have "\<lfloor>x\<rfloor> + 1 \<le> 2 ^ nat ?b" by simp
  then have "real_of_int (\<lfloor>x\<rfloor> + 1) \<le> real_of_int (2 ^ nat ?b)" by (simp only: of_int_le_iff)
  then have h: "x < 2 ^ nat ?b" by (simp add: floor_less_iff) linarith
  from True b1 l h show ?thesis by (simp add: ilog2_def pow2_def)
next
  case False
  with assms have x: "0 < x" "x < 1" by simp_all
  then have i: "1 < 1 / x" by simp
  let ?n = "\<lceil>1 / x\<rceil> - 1"
  from i have p: "0 < ?n" by (simp add: less_ceiling_iff)
  let ?b = "bitlen ?n"
  from p have b1: "1 \<le> ?b" by (auto simp: bitlen_alt_def)
  from bitlen_bounds [OF p] have lo: "2 ^ nat (?b - 1) \<le> ?n" and hi: "?n < 2 ^ nat ?b"
    by simp_all
  from lo have "2 ^ nat (?b - 1) < \<lceil>1 / x\<rceil>" by simp
  then have "real_of_int (2 ^ nat (?b - 1)) < 1 / x" by (simp only: less_ceiling_iff)
  then have l: "(2::real) ^ nat (?b - 1) < 1 / x" by simp
  from hi have "\<lceil>1 / x\<rceil> \<le> 2 ^ nat ?b" by simp
  then have "1 / x \<le> real_of_int (2 ^ nat ?b)" by (simp only: ceiling_le_iff)
  then have h: "1 / x \<le> 2 ^ nat ?b" by simp
  from h x have h': "1 / 2 ^ nat ?b \<le> x"
    by (simp add: field_simps)
  from l x have l': "x < 1 / 2 ^ nat (?b - 1)"
    by (simp add: field_simps)
  have e: "ilog2 x = - ?b" using False by (simp add: ilog2_def)
  from b1 have n: "\<not> 0 \<le> - ?b" by simp
  have lower: "pow2 (ilog2 x) \<le> x" using h' n by (simp add: e pow2_def)
  have upper: "x < pow2 (ilog2 x + 1)"
  proof (cases "?b = 1")
    case True
    with l' show ?thesis by (simp add: e pow2_def)
  next
    case False
    with b1 have "\<not> 0 \<le> - ?b + 1" by simp
    moreover have "nat (- (- ?b + 1)) = nat (?b - 1)" by simp
    ultimately show ?thesis using l' by (simp add: e pow2_def)
  qed
  from lower upper show ?thesis ..
qed

lemma ilog2_unique:
  assumes "0 < x" and "pow2 e \<le> x" and "x < pow2 (e + 1)"
  shows "ilog2 x = e"
proof -
  from ilog2_bounds [OF assms(1)] have b: "pow2 (ilog2 x) \<le> x" "x < pow2 (ilog2 x + 1)"
    by simp_all
  from b(1) assms(3) have "pow2 (ilog2 x) < pow2 (e + 1)" by simp
  then have 1: "ilog2 x < e + 1" by (simp only: pow2_less_iff)
  from assms(2) b(2) have "pow2 e < pow2 (ilog2 x + 1)" by simp
  then have 2: "e < ilog2 x + 1" by (simp only: pow2_less_iff)
  from 1 2 show ?thesis by simp
qed

lemma ilog2_mono:
  assumes "0 < x" and "x \<le> y"
  shows "ilog2 x \<le> ilog2 y"
proof -
  from assms have y: "0 < y" by simp
  from ilog2_bounds [OF assms(1)] ilog2_bounds [OF y] assms(2)
  have "pow2 (ilog2 x) < pow2 (ilog2 y + 1)" by linarith
  then have "ilog2 x < ilog2 y + 1" by (simp only: pow2_less_iff)
  then show ?thesis by simp
qed

lemma roundDouble_0 [simp]: "roundDouble 0 = 0"
  by (simp add: roundDouble_def)

lemma roundDouble_minus: "roundDouble (- x) = - roundDouble x"
  by (simp add: roundDouble_def Let_def)

lemma roundDouble_pos:
  assumes "0 < x"
  shows "roundDouble x = of_int (roundEven (x / pow2 (ilog2 x - 52))) * pow2 (ilog2 x - 52)"
  using assms by (simp add: roundDouble_def Let_def)

lemma scaled_bounds:
  assumes "0 < x"
  shows "2 ^ 52 \<le> x / pow2 (ilog2 x - 52) \<and> x / pow2 (ilog2 x - 52) < 2 ^ 53"
proof -
  let ?e = "ilog2 x"
  have u: "pow2 ?e = pow2 (?e - 52) * 2 ^ 52"
    using pow2_add [of "?e - 52" 52] by (simp add: pow2_def)
  from ilog2_bounds [OF assms] have "pow2 ?e \<le> x" "x < 2 * pow2 ?e"
    by (simp_all add: pow2_Suc)
  then have "pow2 (?e - 52) * 2 ^ 52 \<le> x" "x < pow2 (?e - 52) * 2 ^ 53"
    by (simp_all add: u)
  then show ?thesis by (simp add: field_simps)
qed

lemma roundEven_scaled_bounds:
  assumes "0 < x"
  shows "2 ^ 52 \<le> roundEven (x / pow2 (ilog2 x - 52)) \<and> roundEven (x / pow2 (ilog2 x - 52)) \<le> 2 ^ 53"
proof -
  let ?q = "x / pow2 (ilog2 x - 52)"
  from scaled_bounds [OF assms] have q: "2 ^ 52 \<le> ?q" "?q \<le> 2 ^ 53" by simp_all
  have "roundEven (of_int (2 ^ 52)) \<le> roundEven ?q"
    by (rule roundEven_mono) (use q in simp)
  moreover have "roundEven ?q \<le> roundEven (of_int (2 ^ 53))"
    by (rule roundEven_mono) (use q in simp)
  ultimately show ?thesis by (simp only: roundEven_of_int) 
qed

lemma roundDouble_bounds:
  assumes "0 < x"
  shows "pow2 (ilog2 x) \<le> roundDouble x \<and> roundDouble x \<le> pow2 (ilog2 x + 1)"
proof -
  let ?e = "ilog2 x"
  let ?u = "pow2 (?e - 52)"
  let ?n = "roundEven (x / ?u)"
  have u: "pow2 ?e = 2 ^ 52 * ?u"
    using pow2_add [of "?e - 52" 52] by (simp add: pow2_def)
  from roundEven_scaled_bounds [OF assms] have "2 ^ 52 \<le> ?n" "?n \<le> 2 ^ 53" by simp_all
  then have "real_of_int (2 ^ 52) \<le> of_int ?n" "real_of_int ?n \<le> of_int (2 ^ 53)"
    by (simp_all only: of_int_le_iff)
  then have n: "2 ^ 52 \<le> real_of_int ?n" "real_of_int ?n \<le> 2 ^ 53" by simp_all
  from n(1) have "2 ^ 52 * ?u \<le> of_int ?n * ?u" by (rule mult_right_mono) simp
  moreover from n(2) have "of_int ?n * ?u \<le> 2 ^ 53 * ?u" by (rule mult_right_mono) simp
  ultimately show ?thesis by (simp add: roundDouble_pos [OF assms] u pow2_Suc)
qed

lemma roundDouble_nonneg: "0 \<le> x \<Longrightarrow> 0 \<le> roundDouble x"
proof (cases "x = 0")
  case False
  assume "0 \<le> x"
  with False have p: "0 < x" by simp
  from roundDouble_bounds [OF p] pow2_pos [of "ilog2 x"] show ?thesis by linarith
qed simp

lemma roundDouble_mono_pos:
  assumes "0 < x" and "x \<le> y"
  shows "roundDouble x \<le> roundDouble y"
proof -
  from assms have y: "0 < y" by simp
  note le = ilog2_mono [OF assms]
  show ?thesis
  proof (cases "ilog2 x = ilog2 y")
    case True
    let ?u = "pow2 (ilog2 y - 52)"
    from assms(2) have "x / ?u \<le> y / ?u" by (simp add: divide_right_mono)
    then have "roundEven (x / ?u) \<le> roundEven (y / ?u)" by (rule roundEven_mono)
    then have "real_of_int (roundEven (x / ?u)) \<le> of_int (roundEven (y / ?u))"
      by (simp only: of_int_le_iff)
    then have "of_int (roundEven (x / ?u)) * ?u \<le> of_int (roundEven (y / ?u)) * ?u"
      by (rule mult_right_mono) simp
    then show ?thesis by (simp add: roundDouble_pos [OF assms(1)] roundDouble_pos [OF y] True)
  next
    case False
    with le have "ilog2 x + 1 \<le> ilog2 y" by simp
    then have "pow2 (ilog2 x + 1) \<le> pow2 (ilog2 y)" by (rule pow2_mono)
    with roundDouble_bounds [OF assms(1)] roundDouble_bounds [OF y] show ?thesis by linarith
  qed
qed

lemma roundDouble_mono:
  assumes "x \<le> y"
  shows "roundDouble x \<le> roundDouble y"
proof -
  consider "0 < x" | "x \<le> 0" "0 \<le> y" | "y < 0" by linarith
  then show ?thesis
  proof cases
    case 1
    then show ?thesis using assms by (rule roundDouble_mono_pos)
  next
    case 2
    from 2(1) have "0 \<le> roundDouble (- x)" by (intro roundDouble_nonneg) simp
    then have "roundDouble x \<le> 0" by (simp add: roundDouble_minus)
    with roundDouble_nonneg [OF 2(2)] show ?thesis by linarith
  next
    case 3
    with assms have "0 < - y" "- y \<le> - x" by simp_all
    then have "roundDouble (- y) \<le> roundDouble (- x)" by (rule roundDouble_mono_pos)
    then show ?thesis by (simp add: roundDouble_minus)
  qed
qed





text \<open>The equations that evaluate a rounded product on numerals.\<close>

lemmas double_eval =
  mulDouble_def roundDouble_def ilog2_def pow2_def roundEven_def compute_bitlen

section \<open>Properties of the damage formula\<close>

lemma mulDouble_zero_right [simp]: "mulDouble x 0 = 0"
  by (simp add: mulDouble_def)

lemma mulDouble_nonneg: "0 \<le> x \<Longrightarrow> 0 \<le> y \<Longrightarrow> 0 \<le> mulDouble x y"
  unfolding mulDouble_def by (rule roundDouble_nonneg) simp


lemma calculateDamage_nonneg:
  "0 \<le> typeMultiplier \<Longrightarrow> 0 \<le> calculateDamage r atk df typeMultiplier g"
  by (simp add: calculateDamage_def Let_def mulDouble_nonneg)


subsection \<open>C8: the damage formula\<close>



text \<open>
  C8, as the code has it. The product in the formula is a product of doubles, so the
  formula of the claim, read over the exact product, fails for a multiplier such as the
  double nearest to one third: with roll 2, attack 1 and defence 0 the exact product is just
  below 1 and its floor is 0, but the product rounds to 1 and \<open>calculateDamage\<close> returns 1.
\<close>

theorem calculateDamage_exact_product_counterexample:
  "(1::int) \<le> 2 \<and> (2::int) \<le> 6 \<and> (0::int) \<le> 1 \<and> (0::int) \<le> 0
   \<and> (0::real) \<le> 6004799503160661 / 2 ^ 54
   \<and> roundDouble (1 / 3) = 6004799503160661 / 2 ^ 54
   \<and> calculateDamage 2 1 0 (6004799503160661 / 2 ^ 54) False = 1
   \<and> \<lfloor>real_of_int (max 0 (2 + 1 - 0)) * (6004799503160661 / 2 ^ 54)\<rfloor> = 0"
  by (simp add: calculateDamage_def double_eval)



section \<open>The duel: loop invariant\<close>






















subsection \<open>C3: the rounds of a duel\<close>







section \<open>Balance engine: loops, distributions and the shape of the table\<close>

lemma foldE_invariant:
  assumes "I s"
    and "\<And>x s. x \<in> set xs \<Longrightarrow> I s \<Longrightarrow> \<exists>s'. f x s = Inr s' \<and> I s'"
  shows "\<exists>s'. foldE f xs s = Inr s' \<and> I s'"
  using assms
proof (induction xs arbitrary: s)
  case Nil
  then show ?case by simp
next
  case (Cons x xs)
  from Cons.prems obtain s1 where s1: "f x s = Inr s1" "I s1" by fastforce
  from Cons.IH [OF s1(2)] Cons.prems(2) obtain s' where "foldE f xs s1 = Inr s'" "I s'"
    by auto
  with s1 show ?case by simp
qed

lemma calculateDamage_zero_mult [simp]: "calculateDamage r atk df 0 g = 0"
  by (simp add: calculateDamage_def Let_def)

lemma mapAdd_keys: "fst ` set (mapAdd ds k p) = insert k (fst ` set ds)"
  by (induction ds k p rule: mapAdd.induct) auto

lemma fold_mapAdd_keys:
  "fst ` set (fold (\<lambda>r ds. mapAdd ds (h r) p) rs ds0) = h ` set rs \<union> fst ` set ds0"
  by (induction rs arbitrary: ds0) (auto simp: mapAdd_keys)

lemma damageDistribution_keys:
  "fst ` set (damageDistribution d atk df m g) = (\<lambda>r. calculateDamage r atk df m g) ` {1..d}"
  by (simp add: damageDistribution_def Let_def fold_mapAdd_keys)

lemma damageDistribution_zero:
  "(k, p) \<in> set (damageDistribution d atk df 0 g) \<Longrightarrow> k = 0"
  using damageDistribution_keys [of d atk df 0 g] by force

lemma damageDistribution_nonneg:
  assumes "0 \<le> m" and "(k, p) \<in> set (damageDistribution d atk df m g)"
  shows "0 \<le> k"
proof -
  from assms(2) have "k \<in> fst ` set (damageDistribution d atk df m g)" by force
  then obtain r where "k = calculateDamage r atk df m g"
    unfolding damageDistribution_keys by blast
  with calculateDamage_nonneg [OF assms(1)] show ?thesis by simp
qed

lemma dpRead_in_range:
  assumes "dpShape dp a b" "0 \<le> i" "i \<le> a" "0 \<le> j" "j \<le> b"
  shows "dpRead dp i j = Inr (dp ! nat i ! nat j)"
proof -
  from assms have i: "nat i < length dp" by (simp add: dpShape_def)
  then have "dp ! nat i \<in> set dp" by simp
  with assms have "nat j < length (dp ! nat i)" by (simp add: dpShape_def)
  with i assms show ?thesis by (simp add: dpRead_def)
qed

lemma dpShape_update:
  assumes "dpShape dp a b"
  shows "dpShape (dp[i := (dp ! i)[j := v]]) a b"
proof -
  have "length row = nat (b + 1)" if "row \<in> set (dp[i := (dp ! i)[j := v]])" for row
  proof (cases "i < length dp")
    case True
    from that set_update_subset_insert [of dp i "(dp ! i)[j := v]"]
    have "row = (dp ! i)[j := v] \<or> row \<in> set dp" by blast
    moreover from True have "dp ! i \<in> set dp" by simp
    ultimately show ?thesis using assms by (auto simp: dpShape_def)
  next
    case False
    then have "dp[i := (dp ! i)[j := v]] = dp" by (simp add: list_update_beyond)
    with that assms show ?thesis by (simp add: dpShape_def)
  qed
  with assms show ?thesis by (simp add: dpShape_def)
qed

lemma dpAlloc_shape:
  assumes "0 \<le> a" "0 \<le> b"
  shows "dpAlloc a b = Inr (replicate (nat (a + 1)) (replicate (nat (b + 1)) 0))"
    and "dpShape (replicate (nat (a + 1)) (replicate (nat (b + 1)) 0)) a b"
  using assms by (simp_all add: dpAlloc_def dpShape_def)

lemma fold_rowupd_length:
  "length (fold (\<lambda>h dp. dp[nat h := g (dp ! nat h)]) xs dp) = length dp"
  by (induction xs arbitrary: dp) simp_all

lemma fold_rowupd_nth:
  assumes "\<And>r. g (g r) = g r" and "i < length dp" and "\<forall>h\<in>set xs. 0 \<le> h"
  shows "fold (\<lambda>h dp. dp[nat h := g (dp ! nat h)]) xs dp ! i
         = (if int i \<in> set xs then g (dp ! i) else dp ! i)"
  using assms(2,3)
proof (induction xs arbitrary: dp)
  case Nil
  then show ?case by simp
next
  case (Cons h xs)
  let ?dp1 = "dp[nat h := g (dp ! nat h)]"
  have len: "i < length ?dp1" using Cons.prems by simp
  have h0: "0 \<le> h" using Cons.prems by simp
  have nth1: "?dp1 ! i = (if int i = h then g (dp ! i) else dp ! i)"
    using Cons.prems(1) h0 by (auto simp: nth_list_update)
  from Cons.IH [OF len] Cons.prems(2)
  have "fold (\<lambda>h dp. dp[nat h := g (dp ! nat h)]) xs ?dp1 ! i
        = (if int i \<in> set xs then g (?dp1 ! i) else ?dp1 ! i)" by simp
  with nth1 assms(1) show ?case by auto
qed

lemma setCol0_idem: "setCol0 (setCol0 r v) v = setCol0 r v"
  by (simp add: setCol0_def split: list.splits)

lemma setCol0_nonempty:
  "r \<noteq> [] \<Longrightarrow> length (setCol0 r v) = length r \<and> setCol0 r v ! 0 = v
     \<and> (\<forall>j. 1 \<le> j \<longrightarrow> setCol0 r v ! j = r ! j)"
  by (cases r) (auto simp: setCol0_def nth_Cons split: nat.splits)

lemma dpBase_length: "length (dpBase a dp) = length dp"
  unfolding dpBase_def using fold_rowupd_length [of "\<lambda>r. setCol0 r 1"] by simp

lemma dpBase_nth:
  assumes "i < length dp"
  shows "dpBase a dp ! i = (if 1 \<le> int i \<and> int i \<le> a then setCol0 (dp ! i) 1 else dp ! i)"
  unfolding dpBase_def
  using fold_rowupd_nth [of "\<lambda>r. setCol0 r 1" i dp "[1..a]"] assms
  by (simp add: setCol0_idem)

lemma dpBase_shape:
  assumes "dpShape dp a b" and "0 \<le> b"
  shows "dpShape (dpBase a' dp) a b"
proof -
  have "length row = nat (b + 1)" if "row \<in> set (dpBase a' dp)" for row
  proof -
    from that obtain i where i: "i < length dp" "row = dpBase a' dp ! i"
      by (metis dpBase_length in_set_conv_nth)
    then have r: "dp ! i \<in> set dp" by simp
    with assms have l: "length (dp ! i) = nat (b + 1)" by (simp add: dpShape_def)
    with assms(2) have "dp ! i \<noteq> []" by auto
    with setCol0_nonempty have "length (setCol0 (dp ! i) 1) = length (dp ! i)" by blast
    with i l show ?thesis by (simp add: dpBase_nth)
  qed
  with assms show ?thesis by (simp add: dpShape_def dpBase_length)
qed

lemma dpBase_cell:
  assumes "dpShape dp a b" and "0 \<le> b" and "i < length dp" and "j < nat (b + 1)"
  shows "dpBase a' dp ! i ! j = (if j = 0 \<and> 1 \<le> int i \<and> int i \<le> a' then 1 else dp ! i ! j)"
proof -
  from assms have r: "dp ! i \<in> set dp" by simp
  with assms have l: "length (dp ! i) = nat (b + 1)" by (simp add: dpShape_def)
  with assms(2) have ne: "dp ! i \<noteq> []" by auto
  note s = setCol0_nonempty [OF ne, of 1]
  show ?thesis
  proof (cases "j = 0")
    case True
    with s assms(3) show ?thesis by (simp add: dpBase_nth)
  next
    case False
    then have "1 \<le> j" by simp
    with s have "setCol0 (dp ! i) 1 ! j = dp ! i ! j" by blast
    with False assms(3) show ?thesis by (simp add: dpBase_nth)
  qed
qed

subsection \<open>Immunity: every state without guards has win probability 0\<close>

lemma zero_cell_read:
  assumes sh: "dpShape dp a b" and z: "zeroCols dp"
    and r: "0 \<le> i" "i \<le> a" "1 \<le> j" "j \<le> b"
  shows "dpRead dp i j = Inr 0"
proof -
  have i: "nat i < length dp" using sh r by (simp add: dpShape_def)
  then have "dp ! nat i \<in> set dp" by simp
  with sh r have j: "nat j < length (dp ! nat i)" by (simp add: dpShape_def)
  have "dp ! nat i ! nat j = 0"
    using z i j r by (simp add: zeroCols_def)
  moreover have "0 \<le> j" using r by simp
  ultimately show ?thesis using dpRead_in_range [OF sh r(1,2) _ r(4)] by simp
qed

lemma cellInnerBody_zero:
  assumes sh: "dpShape dp a b" and z: "zeroCols dp"
    and d: "0 \<le> dmgB"
    and r: "1 \<le> hA" "hA \<le> a" "1 \<le> hB" "hB \<le> b"
  shows "\<exists>pl'. cellInnerBody dp hA hB hB pA (dmgB, pB) (0, pl) = Inr (0, pl')"
proof (cases "hA - dmgB \<le> 0 \<or> hA - dmgB = hA")
  case True
  then show ?thesis by (auto simp: cellInnerBody_def Let_def)
next
  case False
  with d r have rng: "0 \<le> hA - dmgB" "hA - dmgB \<le> a" by simp_all
  from zero_cell_read [OF sh z rng r(3,4)] False
  show ?thesis by (simp add: cellInnerBody_def Let_def)
qed

lemma cellInner_zero:
  assumes sh: "dpShape dp a b" and z: "zeroCols dp"
    and kB: "\<forall>x \<in> set distB. 0 \<le> fst x"
    and r: "1 \<le> hA" "hA \<le> a" "1 \<le> hB" "hB \<le> b"
  shows "\<exists>s'. foldE (cellInnerBody dp hA hB hB pA) distB (0, pl) = Inr s' \<and> fst s' = 0"
proof (rule foldE_invariant)
  show "fst (0::real, pl) = 0" by simp
next
  fix x :: "int \<times> real" and s :: "real \<times> real"
  assume x: "x \<in> set distB" and s: "fst s = 0"
  obtain dmgB pB where xe: "x = (dmgB, pB)" by (cases x)
  obtain pl1 where se: "s = (0, pl1)" using s by (cases s) simp
  from x xe kB have "0 \<le> dmgB" by auto
  from cellInnerBody_zero [OF sh z this r, of pA pB pl1]
  show "\<exists>s'. cellInnerBody dp hA hB hB pA x s = Inr s' \<and> fst s' = 0"
    by (auto simp: xe se)
qed

lemma cellSums_zero:
  assumes sh: "dpShape dp a b" and z: "zeroCols dp"
    and kA: "\<forall>x \<in> set distA. fst x = 0"
    and kB: "\<forall>x \<in> set distB. 0 \<le> fst x"
    and r: "1 \<le> hA" "hA \<le> a" "1 \<le> hB" "hB \<le> b"
  shows "\<exists>s'. cellSums dp distA distB hA hB = Inr s' \<and> fst s' = 0"
  unfolding cellSums_def
proof (rule foldE_invariant)
  show "fst (0::real, 0::real) = 0" by simp
next
  fix x :: "int \<times> real" and s :: "real \<times> real"
  assume x: "x \<in> set distA" and s: "fst s = 0"
  obtain dmgA pA where xe: "x = (dmgA, pA)" by (cases x)
  obtain pl1 where se: "s = (0, pl1)" using s by (cases s) simp
  from x xe kA have d0: "dmgA = 0" by auto
  from cellInner_zero [OF sh z kB r, of pA pl1] r(3)
  show "\<exists>s'. cellOuterBody dp distB hA hB x s = Inr s' \<and> fst s' = 0"
    by (simp add: cellOuterBody_def xe se d0 Let_def)
qed

lemma zeroCols_update:
  assumes "zeroCols dp"
  shows "zeroCols (dp[i := (dp ! i)[j := 0]])"
  unfolding zeroCols_def
proof (intro allI impI)
  fix i' j' assume i': "i' < length (dp[i := (dp ! i)[j := 0]])"
    and j': "1 \<le> j' \<and> j' < length (dp[i := (dp ! i)[j := 0]] ! i')"
  show "dp[i := (dp ! i)[j := 0]] ! i' ! j' = 0"
  proof (cases "i' = i")
    case True
    with i' j' have "j' < length (dp ! i)" by simp
    with assms True i' j' have "dp ! i ! j' = 0" by (simp add: zeroCols_def)
    moreover have "j' < length (dp ! i)" using True i' j' by simp
    ultimately have "(dp ! i)[j := 0] ! j' = 0" by (cases "j = j'") simp_all
    with True i' show ?thesis by simp
  next
    case False
    with assms i' j' show ?thesis by (simp add: zeroCols_def)
  qed
qed

lemma fillCell_zero:
  assumes sh: "dpShape dp a b" and z: "zeroCols dp"
    and kA: "\<forall>x \<in> set distA. fst x = 0"
    and kB: "\<forall>x \<in> set distB. 0 \<le> fst x"
    and r: "1 \<le> hA" "hA \<le> a" "1 \<le> hB" "hB \<le> b"
  shows "\<exists>dp'. fillCell distA distB hB hA dp = Inr dp' \<and> dpShape dp' a b \<and> zeroCols dp'"
proof -
  from cellSums_zero [OF sh z kA kB r] obtain pl where
    "cellSums dp distA distB hA hB = Inr (0, pl)" by (metis fst_conv prod.collapse)
  then have "fillCell distA distB hB hA dp = Inr (dp[nat hA := (dp ! nat hA)[nat hB := 0]])"
    by (simp add: fillCell_def)
  with dpShape_update [OF sh] zeroCols_update [OF z] show ?thesis by simp
qed

lemma upto_bounds: "x \<in> set [i..j] \<Longrightarrow> i \<le> x \<and> x \<le> j"
  by simp

lemma fillColumn_zero:
  assumes sh: "dpShape dp a b" and z: "zeroCols dp"
    and kA: "\<forall>x \<in> set distA. fst x = 0"
    and kB: "\<forall>x \<in> set distB. 0 \<le> fst x"
    and r: "1 \<le> hB" "hB \<le> b"
  shows "\<exists>dp'. foldE (fillCell distA distB hB) [1..a] dp = Inr dp' \<and> dpShape dp' a b \<and> zeroCols dp'"
proof (rule foldE_invariant [where I = "\<lambda>dp. dpShape dp a b \<and> zeroCols dp"])
  show "dpShape dp a b \<and> zeroCols dp" using sh z by simp
next
  fix hA :: int and dp1 :: "real list list"
  assume hA: "hA \<in> set [1..a]" and i: "dpShape dp1 a b \<and> zeroCols dp1"
  from hA have "1 \<le> hA" "hA \<le> a" by simp_all
  from fillCell_zero [OF i [THEN conjunct1] i [THEN conjunct2] kA kB this r]
  show "\<exists>s'. fillCell distA distB hB hA dp1 = Inr s' \<and> dpShape s' a b \<and> zeroCols s'" .
qed

lemma fillTable_zero:
  assumes sh: "dpShape dp a b" and z: "zeroCols dp"
    and kA: "\<forall>x \<in> set distA. fst x = 0"
    and kB: "\<forall>x \<in> set distB. 0 \<le> fst x"
  shows "\<exists>dp'. foldE (\<lambda>hB_val dp. foldE (fillCell distA distB hB_val) [1..a] dp) [1..b] dp = Inr dp'
            \<and> dpShape dp' a b \<and> zeroCols dp'"
proof (rule foldE_invariant [where I = "\<lambda>dp. dpShape dp a b \<and> zeroCols dp"])
  show "dpShape dp a b \<and> zeroCols dp" using sh z by simp
next
  fix hB :: int and dp1 :: "real list list"
  assume hB: "hB \<in> set [1..b]" and i: "dpShape dp1 a b \<and> zeroCols dp1"
  from hB have "1 \<le> hB" "hB \<le> b" by simp_all
  from fillColumn_zero [OF i [THEN conjunct1] i [THEN conjunct2] kA kB this]
  show "\<exists>s'. foldE (fillCell distA distB hB) [1..a] dp1 = Inr s' \<and> dpShape s' a b \<and> zeroCols s'" .
qed

lemma dpBase_zeroCols:
  assumes "0 \<le> a" "0 \<le> b"
  shows "zeroCols (dpBase a (replicate (nat (a + 1)) (replicate (nat (b + 1)) 0)))"
  unfolding zeroCols_def
proof (intro allI impI)
  let ?dp0 = "replicate (nat (a + 1)) (replicate (nat (b + 1)) (0::real))"
  fix i j assume i: "i < length (dpBase a ?dp0)" and j: "1 \<le> j \<and> j < length (dpBase a ?dp0 ! i)"
  note sh0 = dpAlloc_shape(2) [OF assms]
  from i have i0: "i < length ?dp0" by (simp add: dpBase_length)
  from dpBase_shape [OF sh0 assms(2), of a] i have "length (dpBase a ?dp0 ! i) = nat (b + 1)"
    by (simp add: dpShape_def)
  with j have j0: "j < nat (b + 1)" by simp
  from dpBase_cell [OF sh0 assms(2) i0 j0, of a] j i0 j0
  show "dpBase a ?dp0 ! i ! j = 0" by simp
qed

lemma dpTable_zero:
  assumes "0 \<le> hpA config" "0 \<le> hpB config" "typeMultiplierAtoB config = 0"
    "0 \<le> typeMultiplierBtoA config"
  shows "\<exists>dp. dpTable config = Inr dp \<and> dpShape dp (hpA config) (hpB config) \<and> zeroCols dp"
proof -
  let ?dA = "damageDistribution (dieA config) (attackA config) (defenseB config) 0 False"
  let ?dB = "damageDistribution (dieB config) (attackB config) (defenseA config)
               (typeMultiplierBtoA config) False"
  let ?dp0 = "replicate (nat (hpA config + 1)) (replicate (nat (hpB config + 1)) (0::real))"
  have kA: "\<forall>x \<in> set ?dA. fst x = 0"
    using damageDistribution_zero by (metis prod.collapse)
  have kB: "\<forall>x \<in> set ?dB. 0 \<le> fst x"
    using damageDistribution_nonneg [OF assms(4)] by (metis prod.collapse)
  note al = dpAlloc_shape [OF assms(1,2)]
  have sh: "dpShape (dpBase (hpA config) ?dp0) (hpA config) (hpB config)"
    using dpBase_shape [OF al(2) assms(2)] .
  have z: "zeroCols (dpBase (hpA config) ?dp0)"
    using dpBase_zeroCols [OF assms(1,2)] .
  from fillTable_zero [OF sh z kA kB] al(1) assms(3)
  show ?thesis by (simp add: dpTable_def Let_def)
qed

lemma firstRound_zero:
  assumes sh: "dpShape dp a b" and z: "zeroCols dp"
    and kA: "\<forall>x \<in> set distA. fst x = 0"
    and kB: "\<forall>x \<in> set distB. 0 \<le> fst x"
    and pos: "1 \<le> a" "1 \<le> b"
  shows "firstRound dp distA distB a b = Inr 0"
proof -
  have inner: "\<exists>s'. foldE (firstInnerBody dp a b pA) distB 0 = Inr s' \<and> s' = 0" for pA
  proof (rule foldE_invariant [where I = "\<lambda>s. s = 0"])
    show "(0::real) = 0" by simp
  next
    fix x :: "int \<times> real" and s :: real
    assume x: "x \<in> set distB" and s: "s = 0"
    obtain dmgB pB where xe: "x = (dmgB, pB)" by (cases x)
    from x xe kB have d: "0 \<le> dmgB" by auto
    show "\<exists>s'. firstInnerBody dp a b pA x s = Inr s' \<and> s' = 0"
    proof (cases "a - dmgB \<le> 0")
      case True
      then show ?thesis by (simp add: firstInnerBody_def xe s Let_def)
    next
      case False
      with d have rng: "0 \<le> a - dmgB" "a - dmgB \<le> a" by simp_all
      have b: "b \<le> b" by simp
      from zero_cell_read [OF sh z rng pos(2) b] False
      show ?thesis by (simp add: firstInnerBody_def xe s Let_def)
    qed
  qed
  have "\<exists>s'. foldE (firstOuterBody dp distB a b) distA 0 = Inr s' \<and> s' = 0"
  proof (rule foldE_invariant [where I = "\<lambda>s. s = 0"])
    show "(0::real) = 0" by simp
  next
    fix x :: "int \<times> real" and s :: real
    assume x: "x \<in> set distA" and s: "s = 0"
    obtain dmgA pA where xe: "x = (dmgA, pA)" by (cases x)
    from x xe kA have d0: "dmgA = 0" by auto
    from inner [of pA] pos(2)
    show "\<exists>s'. firstOuterBody dp distB a b x s = Inr s' \<and> s' = 0"
      by (simp add: firstOuterBody_def xe s d0 Let_def)
  qed
  then show ?thesis by (simp add: firstRound_def)
qed

lemma positive_damage_multiplier:
  assumes "0 < calculateDamage r atk df m g"
  shows "0 < m"
proof (rule ccontr)
  assume "\<not> 0 < m"
  then have m: "m \<le> 0" by simp
  define x where "x = real_of_int (max 0 (r + atk - (if g then df + 1 else df)))"
  have c: "calculateDamage r atk df m g = \<lfloor>mulDouble x m\<rfloor>"
    by (simp add: calculateDamage_def Let_def x_def)
  have "0 \<le> x" by (simp add: x_def)
  with m have "x * m \<le> 0" by (simp add: mult_nonneg_nonpos)
  then have "roundDouble (x * m) \<le> roundDouble 0" by (rule roundDouble_mono)
  then have "\<lfloor>mulDouble x m\<rfloor> \<le> \<lfloor>0::real\<rfloor>"
    unfolding mulDouble_def by (intro floor_mono) simp
  with assms c show False by simp
qed

lemma foldE_sum2:
  assumes "\<And>x pw pl. x \<in> set xs \<Longrightarrow> f x (pw, pl) = Inr (pw + g x, pl + h x)"
  shows "foldE f xs (pw, pl) = Inr (pw + sum_list (map g xs), pl + sum_list (map h xs))"
  using assms
proof (induction xs arbitrary: pw pl)
  case Nil
  then show ?case by simp
next
  case (Cons x xs)
  have "f x (pw, pl) = Inr (pw + g x, pl + h x)" using Cons.prems by simp
  moreover have "foldE f xs (pw + g x, pl + h x)
      = Inr (pw + g x + sum_list (map g xs), pl + h x + sum_list (map h xs))"
    using Cons.IH Cons.prems by simp
  ultimately show ?case by (simp add: add.assoc)
qed

lemma cellInnerBody_value:
  assumes sh: "dpShape dp a b" and d: "0 \<le> dmgB"
    and r: "1 \<le> hA" "hA \<le> a" "1 \<le> newHB" "newHB \<le> b"
  shows "cellInnerBody dp hA hB newHB pA (dmgB, pB) (pw, pl)
       = Inr (pw + (if hA - dmgB \<le> 0 then 0
                    else if dmgB = 0 \<and> newHB = hB then 0
                    else pA * pB * dp ! nat (hA - dmgB) ! nat newHB),
              pl + (if dmgB = 0 \<and> newHB = hB then pA * pB else 0))"
proof (cases "hA - dmgB \<le> 0")
  case True
  with r(1) have "dmgB \<noteq> 0" by auto
  with True show ?thesis by (simp add: cellInnerBody_def Let_def)
next
  case False
  with d r have rng: "0 \<le> hA - dmgB" "hA - dmgB \<le> a" "0 \<le> newHB" by simp_all
  note rd = dpRead_in_range [OF sh rng(1,2,3) r(4)]
  have eq: "(hA - dmgB = hA) = (dmgB = 0)" by auto
  from False rd show ?thesis by (simp add: cellInnerBody_def Let_def eq)
qed

lemma cellOuterBody_value:
  assumes sh: "dpShape dp a b" and kB: "\<forall>x \<in> set distB. 0 \<le> fst x" and d: "0 \<le> dmgA"
    and r: "1 \<le> hA" "hA \<le> a" "1 \<le> hB" "hB \<le> b"
  shows "cellOuterBody dp distB hA hB (dmgA, pA) (pw, pl)
       = Inr (pw + (if hB - dmgA \<le> 0 then pA
                    else \<Sum>(dmgB, pB) \<leftarrow> distB.
                           if hA - dmgB \<le> 0 then 0
                           else if dmgA = 0 \<and> dmgB = 0 then 0
                           else pA * pB * dp ! nat (hA - dmgB) ! nat (hB - dmgA)),
              pl + (\<Sum>(dmgB, pB) \<leftarrow> distB. if dmgA = 0 \<and> dmgB = 0 then pA * pB else 0))"
proof (cases "hB - dmgA \<le> 0")
  case True
  with r(3) have "dmgA \<noteq> 0" by auto
  then have "(\<Sum>(dmgB, pB) \<leftarrow> distB. if dmgA = 0 \<and> dmgB = 0 then pA * pB else 0) = 0"
    by (simp add: case_prod_unfold)
  with True show ?thesis by (simp add: cellOuterBody_def Let_def)
next
  case False
  with d r have nb: "1 \<le> hB - dmgA" "hB - dmgA \<le> b" by simp_all
  have eq: "(hB - dmgA = hB) = (dmgA = 0)" by auto
  let ?g = "\<lambda>x. case x of (dmgB, pB) \<Rightarrow>
              if hA - dmgB \<le> 0 then 0
              else if dmgB = 0 \<and> hB - dmgA = hB then 0
              else pA * pB * dp ! nat (hA - dmgB) ! nat (hB - dmgA)"
  let ?h = "\<lambda>x. case x of (dmgB, pB) \<Rightarrow> if dmgB = 0 \<and> hB - dmgA = hB then pA * pB else (0::real)"
  have fe: "foldE (cellInnerBody dp hA hB (hB - dmgA) pA) distB (pw, pl)
        = Inr (pw + sum_list (map ?g distB), pl + sum_list (map ?h distB))"
  proof (rule foldE_sum2)
    fix x :: "int \<times> real" and pw1 pl1 :: real
    assume x: "x \<in> set distB"
    obtain dmgB pB where xe: "x = (dmgB, pB)" by (cases x)
    from x xe kB have "0 \<le> dmgB" by auto
    from cellInnerBody_value [OF sh this r(1,2) nb]
    show "cellInnerBody dp hA hB (hB - dmgA) pA x (pw1, pl1) = Inr (pw1 + ?g x, pl1 + ?h x)"
      by (simp add: xe)
  qed
  have g: "map ?g distB = map (\<lambda>(dmgB, pB).
                           if hA - dmgB \<le> 0 then 0
                           else if dmgA = 0 \<and> dmgB = 0 then 0
                           else pA * pB * dp ! nat (hA - dmgB) ! nat (hB - dmgA)) distB"
    by (rule map_cong) (auto simp: eq)
  have h: "map ?h distB = map (\<lambda>(dmgB, pB). if dmgA = 0 \<and> dmgB = 0 then pA * pB else 0) distB"
    by (rule map_cong) (auto simp: eq)
  have "cellOuterBody dp distB hA hB (dmgA, pA) (pw, pl)
        = foldE (cellInnerBody dp hA hB (hB - dmgA) pA) distB (pw, pl)"
    using False by (simp add: cellOuterBody_def Let_def)
  also note fe
  finally show ?thesis unfolding g h using False by simp
qed

lemma cellSums_value:
  assumes sh: "dpShape dp a b"
    and kA: "\<forall>x \<in> set distA. 0 \<le> fst x" and kB: "\<forall>x \<in> set distB. 0 \<le> fst x"
    and r: "1 \<le> hA" "hA \<le> a" "1 \<le> hB" "hB \<le> b"
  shows "cellSums dp distA distB hA hB
       = Inr (pOtherSpec dp distA distB hA hB, pLoopSpec distA distB)"
proof -
  let ?g = "\<lambda>x. case x of (dmgA, pA) \<Rightarrow>
              if hB - dmgA \<le> 0 then pA
              else \<Sum>(dmgB, pB) \<leftarrow> distB.
                     if hA - dmgB \<le> 0 then 0
                     else if dmgA = 0 \<and> dmgB = 0 then 0
                     else pA * pB * dp ! nat (hA - dmgB) ! nat (hB - dmgA)"
  let ?h = "\<lambda>x. case x of (dmgA, pA) \<Rightarrow>
              \<Sum>(dmgB, pB) \<leftarrow> distB. if dmgA = 0 \<and> dmgB = 0 then pA * pB else (0::real)"
  have "foldE (cellOuterBody dp distB hA hB) distA (0, 0)
        = Inr (0 + sum_list (map ?g distA), 0 + sum_list (map ?h distA))"
  proof (rule foldE_sum2)
    fix x :: "int \<times> real" and pw1 pl1 :: real
    assume x: "x \<in> set distA"
    obtain dmgA pA where xe: "x = (dmgA, pA)" by (cases x)
    from x xe kA have "0 \<le> dmgA" by auto
    from cellOuterBody_value [OF sh kB this r]
    show "cellOuterBody dp distB hA hB x (pw1, pl1) = Inr (pw1 + ?g x, pl1 + ?h x)"
      by (simp add: xe)
  qed
  then show ?thesis by (simp add: cellSums_def pOtherSpec_def pLoopSpec_def)
qed

lemma fillCell_value:
  assumes sh: "dpShape dp a b"
    and kA: "\<forall>x \<in> set distA. 0 \<le> fst x" and kB: "\<forall>x \<in> set distB. 0 \<le> fst x"
    and r: "1 \<le> hA" "hA \<le> a" "1 \<le> hB" "hB \<le> b"
  shows "fillCell distA distB hB hA dp
       = Inr (dp[nat hA := (dp ! nat hA)[nat hB := closedForm dp distA distB hA hB]])"
  using cellSums_value [OF sh kA kB r] by (simp add: fillCell_def closedForm_def)

lemma pOtherSpec_cong:
  assumes kA: "\<forall>x \<in> set distA. 0 \<le> fst x" and kB: "\<forall>x \<in> set distB. 0 \<le> fst x"
    and agree: "\<And>i' j'. 1 \<le> i' \<Longrightarrow> i' \<le> i \<Longrightarrow> 1 \<le> j' \<Longrightarrow> j' \<le> j \<Longrightarrow> (i', j') \<noteq> (i, j)
                 \<Longrightarrow> dp ! nat i' ! nat j' = dp' ! nat i' ! nat j'"
  shows "pOtherSpec dp distA distB i j = pOtherSpec dp' distA distB i j"
  unfolding pOtherSpec_def
proof (rule arg_cong [where f = sum_list], rule map_cong [OF refl])
  fix x :: "int \<times> real" assume x: "x \<in> set distA"
  obtain dmgA pA where xe: "x = (dmgA, pA)" by (cases x)
  from x xe kA have dA: "0 \<le> dmgA" by auto
  have inner: "(\<Sum>(dmgB, pB) \<leftarrow> distB.
               if i - dmgB \<le> 0 then 0
               else if dmgA = 0 \<and> dmgB = 0 then 0
               else pA * pB * dp ! nat (i - dmgB) ! nat (j - dmgA))
      = (\<Sum>(dmgB, pB) \<leftarrow> distB.
               if i - dmgB \<le> 0 then 0
               else if dmgA = 0 \<and> dmgB = 0 then 0
               else pA * pB * dp' ! nat (i - dmgB) ! nat (j - dmgA))"
    if nb: "\<not> j - dmgA \<le> 0"
  proof (rule arg_cong [where f = sum_list], rule map_cong [OF refl])
    fix y :: "int \<times> real" assume y: "y \<in> set distB"
    obtain dmgB pB where ye: "y = (dmgB, pB)" by (cases y)
    from y ye kB have dB: "0 \<le> dmgB" by auto
    have "dp ! nat (i - dmgB) ! nat (j - dmgA) = dp' ! nat (i - dmgB) ! nat (j - dmgA)"
      if "\<not> i - dmgB \<le> 0" "\<not> (dmgA = 0 \<and> dmgB = 0)"
      using that nb dA dB by (intro agree) auto
    then show "(case y of (dmgB, pB) \<Rightarrow>
               if i - dmgB \<le> 0 then 0
               else if dmgA = 0 \<and> dmgB = 0 then 0
               else pA * pB * dp ! nat (i - dmgB) ! nat (j - dmgA))
         = (case y of (dmgB, pB) \<Rightarrow>
               if i - dmgB \<le> 0 then 0
               else if dmgA = 0 \<and> dmgB = 0 then 0
               else pA * pB * dp' ! nat (i - dmgB) ! nat (j - dmgA))"
      by (simp add: ye)
  qed
  then show "(case x of (dmgA, pA) \<Rightarrow>
        if j - dmgA \<le> 0 then pA
        else \<Sum>(dmgB, pB) \<leftarrow> distB.
               if i - dmgB \<le> 0 then 0
               else if dmgA = 0 \<and> dmgB = 0 then 0
               else pA * pB * dp ! nat (i - dmgB) ! nat (j - dmgA))
     = (case x of (dmgA, pA) \<Rightarrow>
        if j - dmgA \<le> 0 then pA
        else \<Sum>(dmgB, pB) \<leftarrow> distB.
               if i - dmgB \<le> 0 then 0
               else if dmgA = 0 \<and> dmgB = 0 then 0
               else pA * pB * dp' ! nat (i - dmgB) ! nat (j - dmgA))"
    by (simp add: xe)
qed

lemma closedForm_cong:
  assumes kA: "\<forall>x \<in> set distA. 0 \<le> fst x" and kB: "\<forall>x \<in> set distB. 0 \<le> fst x"
    and agree: "\<And>i' j'. 1 \<le> i' \<Longrightarrow> i' \<le> i \<Longrightarrow> 1 \<le> j' \<Longrightarrow> j' \<le> j \<Longrightarrow> (i', j') \<noteq> (i, j)
                 \<Longrightarrow> dp ! nat i' ! nat j' = dp' ! nat i' ! nat j'"
  shows "closedForm dp distA distB i j = closedForm dp' distA distB i j"
  unfolding closedForm_def using pOtherSpec_cong [OF kA kB agree] by simp

lemma dp_update_cell:
  assumes sh: "dpShape dp a b" and r: "0 \<le> hA" "hA \<le> a" "0 \<le> hB" "hB \<le> b"
    and q: "0 \<le> i" "i \<le> a" "0 \<le> j" "j \<le> b"
  shows "dp[nat hA := (dp ! nat hA)[nat hB := v]] ! nat i ! nat j
         = (if i = hA \<and> j = hB then v else dp ! nat i ! nat j)"
proof -
  have lh: "nat hA < length dp" and li: "nat i < length dp"
    using sh r q by (simp_all add: dpShape_def)
  then have "dp ! nat hA \<in> set dp" by simp
  with sh r have lb: "nat hB < length (dp ! nat hA)" by (simp add: dpShape_def)
  show ?thesis
  proof (cases "i = hA")
    case True
    with lh lb r q show ?thesis by (auto simp: nth_list_update)
  next
    case False
    with r q have "nat i \<noteq> nat hA" by simp
    with False show ?thesis by simp
  qed
qed

lemma fillCell_inv:
  assumes inv: "fillInv distA distB a b dp hA hB"
    and kA: "\<forall>x \<in> set distA. 0 \<le> fst x" and kB: "\<forall>x \<in> set distB. 0 \<le> fst x"
    and r: "1 \<le> hA" "hA \<le> a" "1 \<le> hB" "hB \<le> b"
  shows "\<exists>dp'. fillCell distA distB hB hA dp = Inr dp' \<and> fillInv distA distB a b dp' (hA + 1) hB"
proof -
  from inv have sh: "dpShape dp a b" and base: "baseOK dp a b"
    and old: "\<And>i j. doneBefore a hA hB i j \<Longrightarrow> dp ! nat i ! nat j = closedForm dp distA distB i j"
    by (simp_all add: fillInv_def)
  define v where "v = closedForm dp distA distB hA hB"
  define dp' where "dp' = dp[nat hA := (dp ! nat hA)[nat hB := v]]"
  have run: "fillCell distA distB hB hA dp = Inr dp'"
    using fillCell_value [OF sh kA kB r] by (simp add: dp'_def v_def)
  have r0: "0 \<le> hA" "hA \<le> a" "0 \<le> hB" "hB \<le> b" using r by simp_all
  have cell: "dp' ! nat i ! nat j = (if i = hA \<and> j = hB then v else dp ! nat i ! nat j)"
    if "0 \<le> i" "i \<le> a" "0 \<le> j" "j \<le> b" for i j
    unfolding dp'_def using dp_update_cell [OF sh r0 that] .
  have sh': "dpShape dp' a b" unfolding dp'_def using dpShape_update [OF sh] .
  have base': "baseOK dp' a b"
    unfolding baseOK_def
  proof (intro conjI allI impI)
    fix i assume i: "1 \<le> i \<and> i \<le> a"
    then have "dp' ! nat i ! nat 0 = dp ! nat i ! nat 0"
      using cell [of i 0] r by simp
    with base i show "dp' ! nat i ! 0 = 1" by (simp add: baseOK_def)
  next
    fix j assume j: "0 \<le> j \<and> j \<le> b"
    then have "dp' ! nat 0 ! nat j = dp ! nat 0 ! nat j"
      using cell [of 0 j] r by simp
    with base j show "dp' ! 0 ! nat j = 0" by (simp add: baseOK_def)
  qed
  have new: "dp' ! nat i ! nat j = closedForm dp' distA distB i j"
    if d: "doneBefore a (hA + 1) hB i j" for i j
  proof -
    from d r have rng: "0 \<le> i" "i \<le> a" "0 \<le> j" "j \<le> b" "1 \<le> i" "1 \<le> j"
      by (auto simp: doneBefore_def)
    have same: "closedForm dp' distA distB i j = closedForm dp distA distB i j"
    proof (rule closedForm_cong [OF kA kB])
      fix i' j' assume q: "1 \<le> i'" "i' \<le> i" "1 \<le> j'" "j' \<le> j" "(i', j') \<noteq> (i, j)"
      with rng have in': "0 \<le> i'" "i' \<le> a" "0 \<le> j'" "j' \<le> b" by simp_all
      from d q have "\<not> (i' = hA \<and> j' = hB)" by (auto simp: doneBefore_def)
      with cell [OF in'] show "dp' ! nat i' ! nat j' = dp ! nat i' ! nat j'" by simp
    qed
    show ?thesis
    proof (cases "i = hA \<and> j = hB")
      case True
      with cell [OF rng(1-4)] same show ?thesis by (simp add: v_def)
    next
      case False
      with d have "doneBefore a hA hB i j" by (auto simp: doneBefore_def)
      from old [OF this] cell [OF rng(1-4)] False same show ?thesis by simp
    qed
  qed
  from run sh' base' new show ?thesis by (auto simp: fillInv_def)
qed

lemma fillColumn_inv:
  assumes kA: "\<forall>x \<in> set distA. 0 \<le> fst x" and kB: "\<forall>x \<in> set distB. 0 \<le> fst x"
    and r: "1 \<le> hB" "hB \<le> b"
  shows "fillInv distA distB a b dp k hB \<Longrightarrow> 1 \<le> k \<Longrightarrow> k \<le> a + 1 \<Longrightarrow>
         \<exists>dp'. foldE (fillCell distA distB hB) [k..a] dp = Inr dp'
               \<and> fillInv distA distB a b dp' (a + 1) hB"
proof (induction "nat (a + 1 - k)" arbitrary: k dp)
  case 0
  then have "k = a + 1" by simp
  with "0.prems" show ?case by simp
next
  case (Suc n)
  then have k: "k \<le> a" by simp
  from fillCell_inv [OF Suc.prems(1) kA kB Suc.prems(2) k r] obtain dp1 where
    s: "fillCell distA distB hB k dp = Inr dp1" and i: "fillInv distA distB a b dp1 (k + 1) hB"
    by blast
  have "n = nat (a + 1 - (k + 1))" using Suc.hyps(2) by simp
  from Suc.hyps(1) [OF this i] Suc.prems(2) k obtain dp' where
    "foldE (fillCell distA distB hB) [k + 1..a] dp1 = Inr dp'"
    "fillInv distA distB a b dp' (a + 1) hB" by auto
  moreover have "[k..a] = k # [k + 1..a]" using k by (simp add: upto_rec1)
  ultimately show ?case using s by simp
qed

lemma fillInv_next_column:
  "fillInv distA distB a b dp (a + 1) hB = fillInv distA distB a b dp 1 (hB + 1)"
proof -
  have "doneBefore a (a + 1) hB i j = doneBefore a 1 (hB + 1) i j" for i j
    by (auto simp: doneBefore_def)
  then show ?thesis by (simp add: fillInv_def)
qed

lemma fillTable_inv:
  assumes kA: "\<forall>x \<in> set distA. 0 \<le> fst x" and kB: "\<forall>x \<in> set distB. 0 \<le> fst x"
  shows "fillInv distA distB a b dp 1 k \<Longrightarrow> 1 \<le> k \<Longrightarrow> k \<le> b + 1 \<Longrightarrow>
         \<exists>dp'. foldE (\<lambda>hB_val dp. foldE (fillCell distA distB hB_val) [1..a] dp) [k..b] dp = Inr dp'
               \<and> fillInv distA distB a b dp' 1 (b + 1)"
proof (induction "nat (b + 1 - k)" arbitrary: k dp)
  case 0
  then have "k = b + 1" by simp
  with "0.prems" show ?case by simp
next
  case (Suc n)
  then have k: "k \<le> b" by simp
  have a1: "(1::int) \<le> 1" by simp
  show ?case
  proof (cases "0 \<le> a")
    case True
    then have a2: "1 \<le> a + 1" by simp
    from fillColumn_inv [OF kA kB Suc.prems(2) k Suc.prems(1) a1 a2] obtain dp1 where
      s: "foldE (fillCell distA distB k) [1..a] dp = Inr dp1"
      and i: "fillInv distA distB a b dp1 1 (k + 1)"
      unfolding fillInv_next_column by blast
    have "n = nat (b + 1 - (k + 1))" using Suc.hyps(2) by simp
    from Suc.hyps(1) [OF this i] Suc.prems(2) k obtain dp' where
      "foldE (\<lambda>hB_val dp. foldE (fillCell distA distB hB_val) [1..a] dp) [k + 1..b] dp1 = Inr dp'"
      "fillInv distA distB a b dp' 1 (b + 1)" by auto
    moreover have "[k..b] = k # [k + 1..b]" using k by (simp add: upto_rec1)
    ultimately show ?thesis using s by simp
  next
    case False
    then have s: "foldE (fillCell distA distB k) [1..a] dp = Inr dp" by simp
    have "doneBefore a 1 (k + 1) i j = doneBefore a 1 k i j" for i j
      using False by (auto simp: doneBefore_def)
    with Suc.prems(1) have i: "fillInv distA distB a b dp 1 (k + 1)" by (simp add: fillInv_def)
    have "n = nat (b + 1 - (k + 1))" using Suc.hyps(2) by simp
    from Suc.hyps(1) [OF this i] Suc.prems(2) k obtain dp' where
      "foldE (\<lambda>hB_val dp. foldE (fillCell distA distB hB_val) [1..a] dp) [k + 1..b] dp = Inr dp'"
      "fillInv distA distB a b dp' 1 (b + 1)" by auto
    moreover have "[k..b] = k # [k + 1..b]" using k by (simp add: upto_rec1)
    ultimately show ?thesis using s by simp
  qed
qed

lemma fillInv_init:
  assumes "0 \<le> a" "0 \<le> b"
  shows "fillInv distA distB a b (dpBase a (replicate (nat (a + 1)) (replicate (nat (b + 1)) 0))) 1 1"
proof -
  let ?dp0 = "replicate (nat (a + 1)) (replicate (nat (b + 1)) (0::real))"
  note sh0 = dpAlloc_shape(2) [OF assms]
  have sh: "dpShape (dpBase a ?dp0) a b" using dpBase_shape [OF sh0 assms(2)] .
  have cell: "dpBase a ?dp0 ! nat i ! nat j = (if j = 0 \<and> 1 \<le> i then 1 else 0)"
    if "0 \<le> i" "i \<le> a" "0 \<le> j" "j \<le> b" for i j
  proof -
    from that have i: "nat i < length ?dp0" and j: "nat j < nat (b + 1)" by simp_all
    from dpBase_cell [OF sh0 assms(2) i j, of a] that show ?thesis by simp
  qed
  have base: "baseOK (dpBase a ?dp0) a b"
    unfolding baseOK_def
  proof (intro conjI allI impI)
    fix i assume "1 \<le> i \<and> i \<le> a"
    with cell [of i 0] assms show "dpBase a ?dp0 ! nat i ! 0 = 1" by simp
  next
    fix j assume "0 \<le> j \<and> j \<le> b"
    with cell [of 0 j] assms show "dpBase a ?dp0 ! 0 ! nat j = 0" by simp
  qed
  have "\<not> doneBefore a 1 1 i j" for i j by (auto simp: doneBefore_def)
  with sh base show ?thesis by (simp add: fillInv_def)
qed

text \<open>
  C7. For every configuration with positive starting hit points on both sides in which the
  attacker-to-defender type multiplier is 0 and the defender can deal positive damage with
  positive probability (some face of its die gives positive damage),
  \<open>calculateWinProbability\<close> returns exactly 0.
\<close>

theorem immune_attacker_never_wins:
  assumes "0 < hpA config" and "0 < hpB config" and "typeMultiplierAtoB config = 0"
    and "\<exists>g r. 1 \<le> r \<and> r \<le> dieB config \<and>
           0 < calculateDamage r (attackB config) (defenseA config) (typeMultiplierBtoA config) g"
  shows "calculateWinProbability config = Inr 0"
proof -
  from assms(4) positive_damage_multiplier have m: "0 \<le> typeMultiplierBtoA config"
    by (meson less_imp_le)
  have a: "0 \<le> hpA config" "0 \<le> hpB config" using assms(1,2) by simp_all
  from dpTable_zero [OF a assms(3) m] obtain dp where dp: "dpTable config = Inr dp"
    and sh: "dpShape dp (hpA config) (hpB config)" and z: "zeroCols dp" by blast
  let ?dA = "damageDistribution (dieA config) (attackA config) (defenseB config) 0 True"
  let ?dB = "damageDistribution (dieB config) (attackB config) (defenseA config)
               (typeMultiplierBtoA config) True"
  have kA: "\<forall>x \<in> set ?dA. fst x = 0"
    using damageDistribution_zero by (metis prod.collapse)
  have kB: "\<forall>x \<in> set ?dB. 0 \<le> fst x"
    using damageDistribution_nonneg [OF m] by (metis prod.collapse)
  have p: "1 \<le> hpA config" "1 \<le> hpB config" using assms(1,2) by simp_all
  from firstRound_zero [OF sh z kA kB p] dp assms(3)
  show ?thesis by (simp add: calculateWinProbability_def Let_def)
qed

theorem immune_attacker_never_wins_witness:
  "(0::int) < 10 \<and> 0 < calculateDamage 6 3 0 1 True
   \<and> calculateWinProbability
        \<lparr>hpA = 10, dieA = 6, attackA = 0, defenseA = 0, hpB = 10, dieB = 6, attackB = 3,
         defenseB = 0, typeMultiplierAtoB = 0, typeMultiplierBtoA = 1\<rparr> = Inr 0"
proof -
  let ?c = "\<lparr>hpA = 10, dieA = 6, attackA = 0, defenseA = 0, hpB = 10, dieB = 6, attackB = 3,
         defenseB = 0, typeMultiplierAtoB = 0, typeMultiplierBtoA = 1\<rparr>"
  have d: "0 < calculateDamage 6 3 0 1 True" by (simp add: calculateDamage_def double_eval)
  then have h: "\<exists>g r. 1 \<le> r \<and> r \<le> dieB ?c \<and>
           0 < calculateDamage r (attackB ?c) (defenseA ?c) (typeMultiplierBtoA ?c) g"
    by (intro exI [of _ True] exI [of _ 6]) simp
  have "calculateWinProbability ?c = Inr 0"
    by (rule immune_attacker_never_wins [OF _ _ _ h]) simp_all
  with d show ?thesis by simp
qed

text \<open>
  C2. In \<open>calculateWinProbability\<close>, for a configuration with non-negative hit points and
  multipliers, the guard-off table \<open>P\<close> is built without error and satisfies:
  \<open>P[hA][0] = 1\<close> for every \<open>hA \<ge> 1\<close>, \<open>P[0][hB] = 0\<close> for every \<open>hB \<ge> 0\<close>, and for every
  \<open>hA, hB \<ge> 1\<close> the entry equals \<open>pOther / (1 - pLoop)\<close> when \<open>pLoop < 1\<close> and \<open>0\<close> when
  \<open>pLoop = 1\<close>, where \<open>pLoop\<close> is the probability that both combatants deal zero damage and
  \<open>pOther\<close> the total weight of the transitions into already-resolved continuations,
  read from the finished table.
\<close>

theorem dpTable_closed_form:
  assumes "0 \<le> hpA config" and "0 \<le> hpB config"
    and "0 \<le> typeMultiplierAtoB config" and "0 \<le> typeMultiplierBtoA config"
  shows "\<exists>P. dpTable config = Inr P
     \<and> (\<forall>hA. 1 \<le> hA \<and> hA \<le> hpA config \<longrightarrow> P ! nat hA ! 0 = 1)
     \<and> (\<forall>hB. 0 \<le> hB \<and> hB \<le> hpB config \<longrightarrow> P ! 0 ! nat hB = 0)
     \<and> (\<forall>hA hB. 1 \<le> hA \<and> hA \<le> hpA config \<and> 1 \<le> hB \<and> hB \<le> hpB config \<longrightarrow>
          (let distA = damageDistribution (dieA config) (attackA config) (defenseB config)
                         (typeMultiplierAtoB config) False;
               distB = damageDistribution (dieB config) (attackB config) (defenseA config)
                         (typeMultiplierBtoA config) False;
               pLoop = pLoopSpec distA distB;
               pOther = pOtherSpec P distA distB hA hB
           in (pLoop < 1 \<longrightarrow> P ! nat hA ! nat hB = pOther / (1 - pLoop))
            \<and> (pLoop = 1 \<longrightarrow> P ! nat hA ! nat hB = 0)))"
proof -
  let ?dA = "damageDistribution (dieA config) (attackA config) (defenseB config)
               (typeMultiplierAtoB config) False"
  let ?dB = "damageDistribution (dieB config) (attackB config) (defenseA config)
               (typeMultiplierBtoA config) False"
  let ?a = "hpA config" and ?b = "hpB config"
  let ?dp0 = "replicate (nat (?a + 1)) (replicate (nat (?b + 1)) (0::real))"
  have kA: "\<forall>x \<in> set ?dA. 0 \<le> fst x"
    using damageDistribution_nonneg [OF assms(3)] by (metis prod.collapse)
  have kB: "\<forall>x \<in> set ?dB. 0 \<le> fst x"
    using damageDistribution_nonneg [OF assms(4)] by (metis prod.collapse)
  have one: "(1::int) \<le> 1" by simp
  have b1: "1 \<le> ?b + 1" using assms(2) by simp
  from fillTable_inv [OF kA kB fillInv_init [OF assms(1,2)] one b1] obtain P where
    run: "foldE (\<lambda>hB_val dp. foldE (fillCell ?dA ?dB hB_val) [1..?a] dp) [1..?b] (dpBase ?a ?dp0) = Inr P"
    and inv: "fillInv ?dA ?dB ?a ?b P 1 (?b + 1)" by blast
  have tab: "dpTable config = Inr P"
    using run dpAlloc_shape(1) [OF assms(1,2)] by (simp add: dpTable_def Let_def)
  from inv have base: "baseOK P ?a ?b"
    and cells: "\<And>i j. doneBefore ?a 1 (?b + 1) i j \<Longrightarrow> P ! nat i ! nat j = closedForm P ?dA ?dB i j"
    by (simp_all add: fillInv_def)
  have c: "(pLoopSpec ?dA ?dB < 1 \<longrightarrow>
              P ! nat hA ! nat hB = pOtherSpec P ?dA ?dB hA hB / (1 - pLoopSpec ?dA ?dB))
         \<and> (pLoopSpec ?dA ?dB = 1 \<longrightarrow> P ! nat hA ! nat hB = 0)"
    if "1 \<le> hA \<and> hA \<le> ?a \<and> 1 \<le> hB \<and> hB \<le> ?b" for hA hB
  proof -
    from that have "doneBefore ?a 1 (?b + 1) hA hB" by (auto simp: doneBefore_def)
    from cells [OF this] show ?thesis by (simp add: closedForm_def)
  qed
  from tab base c show ?thesis by (simp add: baseOK_def Let_def)
qed

theorem dpTable_closed_form_witness:
  "dpTable \<lparr>hpA = 2, dieA = 2, attackA = 0, defenseA = 1, hpB = 2, dieB = 2, attackB = 0,
            defenseB = 1, typeMultiplierAtoB = 1, typeMultiplierBtoA = 1\<rparr>
     = Inr [[0, 0, 0], [1, 2 / 3, 2 / 9], [1, 8 / 9, 16 / 27]]
   \<and> pLoopSpec (damageDistribution 2 0 1 1 False) (damageDistribution 2 0 1 1 False) < 1
   \<and> [[0, 0, 0], [1, 2 / 3, 2 / 9], [1, 8 / 9, 16 / 27 :: real]] ! 2 ! 2
       = pOtherSpec [[0, 0, 0], [1, 2 / 3, 2 / 9], [1, 8 / 9, 16 / 27]]
           (damageDistribution 2 0 1 1 False) (damageDistribution 2 0 1 1 False) 2 2
         / (1 - pLoopSpec (damageDistribution 2 0 1 1 False) (damageDistribution 2 0 1 1 False))
   \<and> dpTable \<lparr>hpA = 1, dieA = 2, attackA = 0, defenseA = 5, hpB = 1, dieB = 2, attackB = 0,
            defenseB = 5, typeMultiplierAtoB = 1, typeMultiplierBtoA = 1\<rparr>
     = Inr [[0, 0], [1, 0]]
   \<and> pLoopSpec (damageDistribution 2 0 5 1 False) (damageDistribution 2 0 5 1 False) = 1
   \<and> [[0, 0], [1, 0 :: real]] ! 1 ! 1 = 0"
  (is "?t1 \<and> ?l1 \<and> ?c1 \<and> ?t2 \<and> ?l2 \<and> ?c2")
proof -
  let ?cfg1 = "\<lparr>hpA = 2, dieA = 2, attackA = 0, defenseA = 1, hpB = 2, dieB = 2, attackB = 0,
            defenseB = 1, typeMultiplierAtoB = 1, typeMultiplierBtoA = 1\<rparr>"
  let ?cfg2 = "\<lparr>hpA = 1, dieA = 2, attackA = 0, defenseA = 5, hpB = 1, dieB = 2, attackB = 0,
            defenseB = 5, typeMultiplierAtoB = 1, typeMultiplierBtoA = 1\<rparr>"
  have t1: ?t1 by code_simp
  have t2: ?t2 by code_simp
  have l1: ?l1 by code_simp
  have l2: ?l2 by code_simp
  have h1: "0 \<le> hpA ?cfg1" "0 \<le> hpB ?cfg1" "0 \<le> typeMultiplierAtoB ?cfg1"
    "0 \<le> typeMultiplierBtoA ?cfg1" by simp_all
  have h2: "0 \<le> hpA ?cfg2" "0 \<le> hpB ?cfg2" "0 \<le> typeMultiplierAtoB ?cfg2"
    "0 \<le> typeMultiplierBtoA ?cfg2" by simp_all
  from dpTable_closed_form [OF h1] obtain P where p: "dpTable ?cfg1 = Inr P"
    and cells: "\<forall>hA hB. 1 \<le> hA \<and> hA \<le> hpA ?cfg1 \<and> 1 \<le> hB \<and> hB \<le> hpB ?cfg1 \<longrightarrow>
          (let distA = damageDistribution (dieA ?cfg1) (attackA ?cfg1) (defenseB ?cfg1)
                         (typeMultiplierAtoB ?cfg1) False;
               distB = damageDistribution (dieB ?cfg1) (attackB ?cfg1) (defenseA ?cfg1)
                         (typeMultiplierBtoA ?cfg1) False;
               pLoop = pLoopSpec distA distB;
               pOther = pOtherSpec P distA distB hA hB
           in (pLoop < 1 \<longrightarrow> P ! nat hA ! nat hB = pOther / (1 - pLoop))
            \<and> (pLoop = 1 \<longrightarrow> P ! nat hA ! nat hB = 0))"
    by blast
  from p t1 have P: "P = [[0, 0, 0], [1, 2 / 3, 2 / 9], [1, 8 / 9, 16 / 27]]" by simp
  have n2: "nat 2 = Suc (Suc 0)" by simp
  from cells [rule_format, of 2 2] l1 have c1: ?c1
    unfolding P Let_def by (simp add: n2)
  from dpTable_closed_form [OF h2] obtain Q where q: "dpTable ?cfg2 = Inr Q"
    and cells2: "\<forall>hA hB. 1 \<le> hA \<and> hA \<le> hpA ?cfg2 \<and> 1 \<le> hB \<and> hB \<le> hpB ?cfg2 \<longrightarrow>
          (let distA = damageDistribution (dieA ?cfg2) (attackA ?cfg2) (defenseB ?cfg2)
                         (typeMultiplierAtoB ?cfg2) False;
               distB = damageDistribution (dieB ?cfg2) (attackB ?cfg2) (defenseA ?cfg2)
                         (typeMultiplierBtoA ?cfg2) False;
               pLoop = pLoopSpec distA distB;
               pOther = pOtherSpec Q distA distB hA hB
           in (pLoop < 1 \<longrightarrow> Q ! nat hA ! nat hB = pOther / (1 - pLoop))
            \<and> (pLoop = 1 \<longrightarrow> Q ! nat hA ! nat hB = 0))"
    by blast
  from q t2 have Q: "Q = [[0, 0], [1, 0]]" by simp
  from cells2 [rule_format, of 1 1] l2 have c2: ?c2
    unfolding Q Let_def by simp
  from t1 l1 c1 t2 l2 c2 show ?thesis by blast
qed

section \<open>Generated moves and the two transitions\<close>

lemma moveOK_stepMoves:
  "m \<in> set (stepMoves b p pos nr nc) \<Longrightarrow> pieceClass p \<noteq> Pawn \<Longrightarrow> moveOK b p pos m"
  by (auto simp: stepMoves_def moveOK_def mkMove_def getPieceAt_def isEnemy_def Let_def
           split: if_splits option.splits)

lemma moveOK_slideRay:
  "m \<in> set (slideRay b p pos dr dc r c) \<Longrightarrow> moveOK b p pos m"
proof (induction b p pos dr dc r c rule: slideRay.induct)
  case (1 board piece pos dr dc r c)
  show ?case
  proof (cases "inBounds r c \<and> (dr \<noteq> 0 \<or> dc \<noteq> 0)")
    case False
    with "1.prems" show ?thesis by (subst (asm) slideRay.simps) simp
  next
    case True
    show ?thesis
    proof (cases "getPieceAt board r c")
      case None
      with True "1.prems" have "m = mkMove pos r c False None
          \<or> m \<in> set (slideRay board piece pos dr dc (r + dr) (c + dc))"
        by (subst (asm) slideRay.simps) (simp add: Let_def)
      then show ?thesis
      proof
        assume "m = mkMove pos r c False None"
        with True None show ?thesis
          by (simp add: moveOK_def mkMove_def getPieceAt_def)
      next
        assume "m \<in> set (slideRay board piece pos dr dc (r + dr) (c + dc))"
        with "1.IH" True None show ?thesis by simp
      qed
    next
      case (Some t)
      with True "1.prems" have "isEnemy piece (Some t)" and "m = mkMove pos r c True None"
        by (subst (asm) slideRay.simps, simp add: Let_def split: if_splits)+
      with True Some show ?thesis
        by (simp add: moveOK_def mkMove_def getPieceAt_def isEnemy_def)
    qed
  qed
qed

lemma moveOK_sliding:
  "m \<in> set (generateSlidingMoves b p pos ds) \<Longrightarrow> moveOK b p pos m"
  by (auto simp: generateSlidingMoves_def moveOK_slideRay)

lemma moveOK_knight:
  "m \<in> set (generateKnightMoves b p pos) \<Longrightarrow> pieceClass p \<noteq> Pawn \<Longrightarrow> moveOK b p pos m"
  by (auto simp: generateKnightMoves_def dest: moveOK_stepMoves)

lemma moveOK_king:
  "m \<in> set (generateKingMoves b p pos) \<Longrightarrow> pieceClass p \<noteq> Pawn \<Longrightarrow> moveOK b p pos m"
  by (auto simp: generateKingMoves_def dest: moveOK_stepMoves split: if_splits)

lemma moveOK_mkMove:
  assumes "inBounds r c" and "promo \<in> {None, Some Queen, Some Rook, Some Knight, Some Bishop}"
    and "promo \<noteq> None \<longrightarrow> pieceClass p = Pawn"
    and "if cap then (\<exists>d. sq b r c = Some d \<and> owner d \<noteq> owner p) else sq b r c = None"
  shows "moveOK b p pos (mkMove pos r c cap promo)"
  using assms by (simp add: moveOK_def mkMove_def)

lemma moveOK_pawn:
  assumes m: "m \<in> set (generatePawnMoves b p pos)" and pw: "pieceClass p = Pawn"
  shows "moveOK b p pos m"
proof -
  define dir :: int where "dir = (if owner p = White then - 1 else 1)"
  define startRow :: int where "startRow = (if owner p = White then 6 else 1)"
  define promoRow :: int where "promoRow = (if owner p = White then 0 else 7)"
  define fwd where "fwd = row pos + dir"
  define forward where "forward =
         (if inBounds fwd (col pos) \<and> isEmpty b fwd (col pos) then
            (if fwd = promoRow
             then map (\<lambda>promo. mkMove pos fwd (col pos) False (Some promo))
                    [Queen, Rook, Knight, Bishop]
             else [mkMove pos fwd (col pos) False None])
            @ (if row pos = startRow \<and> isEmpty b (row pos + 2 * dir) (col pos)
                  then [mkMove pos (row pos + 2 * dir) (col pos) False None] else [])
          else [])"
  define captures where "captures = (\<lambda>dc.
                     if inBounds fwd (col pos + dc) then
                          (if isEnemy p (getPieceAt b fwd (col pos + dc)) then
                                (if fwd = promoRow
                                 then map (\<lambda>promo. mkMove pos fwd (col pos + dc) True (Some promo))
                                        [Queen, Rook, Knight, Bishop]
                                 else [mkMove pos fwd (col pos + dc) True None])
                              else [])
                        else [])"
  have gen: "generatePawnMoves b p pos = forward @ captures (- 1) @ captures 1"
    by (simp only: generatePawnMoves_def Let_def forward_def captures_def dir_def startRow_def
        promoRow_def fwd_def list.map concat.simps append_Nil2)
  have f: "moveOK b p pos x" if "x \<in> set forward" for x
  proof -
    from that have e: "inBounds fwd (col pos)" "sq b fwd (col pos) = None"
      by (auto simp: forward_def isEmpty_def split: if_splits)
    from that consider
        (promo) pr where "x = mkMove pos fwd (col pos) False (Some pr)"
           "pr \<in> {Queen, Rook, Knight, Bishop}"
      | (single) "x = mkMove pos fwd (col pos) False None"
      | (double) "x = mkMove pos (row pos + 2 * dir) (col pos) False None"
          "isEmpty b (row pos + 2 * dir) (col pos)"
      by (auto simp: forward_def split: if_splits)
    then show ?thesis
    proof cases
      case promo
      with e pw show ?thesis by (auto intro!: moveOK_mkMove)
    next
      case single
      with e pw show ?thesis by (auto intro!: moveOK_mkMove)
    next
      case double
      then show ?thesis by (auto intro!: moveOK_mkMove simp: isEmpty_def)
    qed
  qed
  have c: "moveOK b p pos x" if "x \<in> set (captures dc)" for x dc
  proof -
    from that have e: "inBounds fwd (col pos + dc)" "isEnemy p (getPieceAt b fwd (col pos + dc))"
      by (auto simp: captures_def split: if_splits)
    then have t: "\<exists>d. sq b fwd (col pos + dc) = Some d \<and> owner d \<noteq> owner p"
      by (auto simp: isEnemy_def getPieceAt_def split: option.splits)
    from that consider
        (promo) pr where "x = mkMove pos fwd (col pos + dc) True (Some pr)"
           "pr \<in> {Queen, Rook, Knight, Bishop}"
      | (single) "x = mkMove pos fwd (col pos + dc) True None"
      by (auto simp: captures_def split: if_splits)
    then show ?thesis
    proof cases
      case promo
      with e t pw show ?thesis by (auto intro!: moveOK_mkMove)
    next
      case single
      with e t pw show ?thesis by (auto intro!: moveOK_mkMove)
    qed
  qed
  from m gen f c show ?thesis by auto
qed

lemma moveOK_pseudo:
  "m \<in> set (getPseudoLegalMoves b p pos) \<Longrightarrow> moveOK b p pos m"
  by (cases "pieceClass p")
     (auto simp: getPseudoLegalMoves_def moveOK_pawn moveOK_knight moveOK_king moveOK_sliding)

lemma moveOK_legal:
  "m \<in> set (getLegalMoves b p pos) \<Longrightarrow> moveOK b p pos m"
  by (simp add: getLegalMoves_def moveOK_pseudo)

lemma nat_less_8: "0 \<le> (x::int) \<Longrightarrow> (nat x < 8) = (x < 8)"
  by linarith

lemma readSquare_wf:
  assumes "wfBoard b" and "inBounds (row pos) (col pos)"
  shows "readSquare b pos = Inr (sq b (row pos) (col pos))"
proof -
  from assms have r: "0 \<le> row pos" "nat (row pos) < length b"
    by (simp_all add: wfBoard_def inBounds_def nat_less_8)
  then have "b ! nat (row pos) \<in> set b" by simp
  with assms have "0 \<le> col pos" "nat (col pos) < length (b ! nat (row pos))"
    by (simp_all add: wfBoard_def inBounds_def nat_less_8)
  with r show ?thesis by (simp add: readSquare_def)
qed

lemma readSquare_Some:
  assumes "readSquare b pos = Inr (Some p)"
  shows "sq b (row pos) (col pos) = Some p"
  using assms by (simp add: readSquare_def split: if_splits)

lemma readSquare_Some_inBounds:
  assumes "wfBoard b" and "readSquare b pos = Inr (Some p)"
  shows "inBounds (row pos) (col pos)"
proof -
  from assms(2) have r: "0 \<le> row pos" "nat (row pos) < length b"
    and c: "0 \<le> col pos" "nat (col pos) < length (b ! nat (row pos))"
    by (simp_all add: readSquare_def split: if_splits)
  from r have "b ! nat (row pos) \<in> set b" by simp
  with assms(1) c r show ?thesis by (simp add: wfBoard_def inBounds_def nat_less_8)
qed



lemma makeMove_legal_capture:
  assumes wf: "wfBoard (board st)"
    and src: "readSquare (board st) (m_from mv) = Inr (Some piece)"
    and own: "owner piece = currentPlayer st"
    and legal: "mv \<in> set (getLegalMoves (board st) piece (m_from mv))"
    and cap: "isCapture mv"
  shows "\<exists>dfn. sq (board st) (row (m_to mv)) (col (m_to mv)) = Some dfn
           \<and> owner dfn \<noteq> owner piece
           \<and> makeMove st mv = Inr (st\<lparr>phase := Combat,
                 pendingCombat := Some \<lparr>p_attacker = piece, p_defender = dfn, p_move = mv\<rparr>\<rparr>)"
proof -
  from moveOK_legal [OF legal] cap obtain dfn where
    inb: "inBounds (row (m_to mv)) (col (m_to mv))"
    and d: "sq (board st) (row (m_to mv)) (col (m_to mv)) = Some dfn" "owner dfn \<noteq> owner piece"
    by (auto simp: moveOK_def)
  have rd: "readSquare (board st) (m_to mv) = Inr (Some dfn)"
    using readSquare_wf [OF wf inb] d by simp
  have ex: "list_ex (\<lambda>m. row (m_to m) = row (m_to mv) \<and> col (m_to m) = col (m_to mv)
                        \<and> promotion m = promotion mv)
              (getLegalMoves (board st) piece (m_from mv))"
    unfolding list_ex_iff using legal by blast
  from src own ex cap rd d show ?thesis by (simp add: makeMove_def Let_def)
qed

lemma makeMove_legal_quiet:
  assumes src: "readSquare (board st) (m_from mv) = Inr (Some piece)"
    and own: "owner piece = currentPlayer st"
    and legal: "mv \<in> set (getLegalMoves (board st) piece (m_from mv))"
    and cap: "\<not> isCapture mv"
  shows "makeMove st mv = Inr (advanceTurn st (applyMove (board st) mv) mv)"
proof -
  have ex: "list_ex (\<lambda>m. row (m_to m) = row (m_to mv) \<and> col (m_to m) = col (m_to mv)
                        \<and> promotion m = promotion mv)
              (getLegalMoves (board st) piece (m_from mv))"
    unfolding list_ex_iff using legal by blast
  from src own ex cap show ?thesis by (simp add: makeMove_def Let_def)
qed


text \<open>
  C4. For every game state on an 8 by 8 board (whatever its phase, so in particular in
  phase \<open>playing\<close>) and every legal capturing move of a piece of the active side,
  \<open>makeMove\<close> returns a state whose phase is the combat-pending phase and whose
  \<open>pendingCombat\<close> holds the attacking piece, the defending piece read from the target
  square, and the move, while the board, the active side, the turn counter and the move
  history are those of the input state: the move is not applied and the side is not
  swapped.
\<close>

theorem makeMove_capture_pending:
  assumes "wfBoard (board st)"
    and "readSquare (board st) (m_from mv) = Inr (Some piece)"
    and "owner piece = currentPlayer st"
    and "mv \<in> set (getLegalMoves (board st) piece (m_from mv))"
    and "isCapture mv"
  shows "\<exists>st' dfn. makeMove st mv = Inr st'
           \<and> readSquare (board st) (m_to mv) = Inr (Some dfn)
           \<and> phase st' = Combat
           \<and> pendingCombat st' = Some \<lparr>p_attacker = piece, p_defender = dfn, p_move = mv\<rparr>
           \<and> board st' = board st
           \<and> currentPlayer st' = currentPlayer st
           \<and> turnNumber st' = turnNumber st
           \<and> moveHistory st' = moveHistory st"
proof -
  from makeMove_legal_capture [OF assms] obtain dfn where
    d: "sq (board st) (row (m_to mv)) (col (m_to mv)) = Some dfn"
    and mk: "makeMove st mv = Inr (st\<lparr>phase := Combat,
                 pendingCombat := Some \<lparr>p_attacker = piece, p_defender = dfn, p_move = mv\<rparr>\<rparr>)"
    by blast
  from moveOK_legal [OF assms(4)] have "inBounds (row (m_to mv)) (col (m_to mv))"
    by (simp add: moveOK_def)
  from readSquare_wf [OF assms(1) this] d
  have "readSquare (board st) (m_to mv) = Inr (Some dfn)" by simp
  with mk show ?thesis by simp
qed

theorem makeMove_capture_pending_witness:
  "wfBoard (board exState)
   \<and> readSquare (board exState) (m_from exCapture) = Inr (Some (exPiece 3 Pawn Black 3 3))
   \<and> owner (exPiece 3 Pawn Black 3 3) = currentPlayer exState
   \<and> exCapture \<in> set (getLegalMoves (board exState) (exPiece 3 Pawn Black 3 3) (m_from exCapture))
   \<and> isCapture exCapture
   \<and> (\<exists>st' dfn. makeMove exState exCapture = Inr st'
         \<and> readSquare (board exState) (m_to exCapture) = Inr (Some dfn)
         \<and> phase st' = Combat
         \<and> pendingCombat st'
             = Some \<lparr>p_attacker = exPiece 3 Pawn Black 3 3, p_defender = dfn, p_move = exCapture\<rparr>
         \<and> board st' = board exState
         \<and> currentPlayer st' = currentPlayer exState
         \<and> turnNumber st' = turnNumber exState
         \<and> moveHistory st' = moveHistory exState)"
proof -
  have h: "wfBoard (board exState)"
    "readSquare (board exState) (m_from exCapture) = Inr (Some (exPiece 3 Pawn Black 3 3))"
    "owner (exPiece 3 Pawn Black 3 3) = currentPlayer exState"
    "exCapture \<in> set (getLegalMoves (board exState) (exPiece 3 Pawn Black 3 3) (m_from exCapture))"
    "isCapture exCapture"
    by code_simp+
  from makeMove_capture_pending [OF h] h show ?thesis by blast
qed





section \<open>The invariant of reachable states\<close>

lemma wfBoard_setSq:
  assumes "wfBoard b"
  shows "wfBoard (setSq b r c v)"
proof -
  have "length x = 8" if "x \<in> set (setSq b r c v)" for x
  proof (cases "nat r < length b")
    case True
    from that set_update_subset_insert [of b "nat r" "(b ! nat r)[nat c := v]"]
    have "x = (b ! nat r)[nat c := v] \<or> x \<in> set b" by (auto simp: setSq_def)
    moreover from True have "b ! nat r \<in> set b" by simp
    ultimately show ?thesis using assms by (auto simp: wfBoard_def)
  next
    case False
    then have "setSq b r c v = b" by (simp add: setSq_def list_update_beyond)
    with that assms show ?thesis by (simp add: wfBoard_def)
  qed
  with assms show ?thesis by (simp add: wfBoard_def setSq_def)
qed

lemma sq_setSq:
  assumes wf: "wfBoard b" and i: "inBounds r c" and j: "inBounds r' c'"
  shows "sq (setSq b r c v) r' c' = (if r' = r \<and> c' = c then v else sq b r' c')"
proof -
  from wf i j have lr: "nat r < length b" "nat r' < length b"
    by (simp_all add: wfBoard_def inBounds_def nat_less_8)
  then have "b ! nat r \<in> set b" by simp
  with wf i have lc: "nat c < length (b ! nat r)"
    by (simp add: wfBoard_def inBounds_def nat_less_8)
  from i j have e: "(nat r' = nat r) = (r' = r)" "(nat c' = nat c) = (c' = c)"
    by (auto simp: inBounds_def)
  show ?thesis
  proof (cases "r' = r")
    case True
    with lr lc e show ?thesis by (auto simp: sq_def setSq_def nth_list_update)
  next
    case False
    with e have "nat r' \<noteq> nat r" by simp
    with False show ?thesis by (simp add: sq_def setSq_def)
  qed
qed

lemma inv_after_move:
  assumes p: "piecesOK b" and ids: "idsOK b"
    and new: "\<And>r c. inBounds r c \<Longrightarrow>
        sq b' r c = (if r = tr \<and> c = tc then Some w
                     else if r = fr \<and> c = fc then None else sq b r c)"
    and ok: "pieceOK tr tc w"
    and idw: "\<And>r c q. inBounds r c \<Longrightarrow> sq b r c = Some q \<Longrightarrow> pieceId q = pieceId w
               \<Longrightarrow> (r = fr \<and> c = fc) \<or> (r = tr \<and> c = tc)"
  shows "piecesOK b' \<and> idsOK b'"
proof
  show "piecesOK b'"
    unfolding piecesOK_def
  proof (intro allI impI)
    fix r c q assume h: "inBounds r c \<and> sq b' r c = Some q"
    show "pieceOK r c q"
    proof (cases "r = tr \<and> c = tc")
      case True
      with h new [of r c] ok show ?thesis by simp
    next
      case False
      with h new [of r c] have "sq b r c = Some q" by (auto split: if_splits)
      with h p show ?thesis by (auto simp: piecesOK_def)
    qed
  qed
next
  have old: "sq b r c = Some q \<and> \<not> (r = fr \<and> c = fc)"
    if "inBounds r c" "sq b' r c = Some q" "\<not> (r = tr \<and> c = tc)" for r c q
    using that new [of r c] by (auto split: if_splits)
  show "idsOK b'"
    unfolding idsOK_def
  proof (intro allI impI)
    fix r c r' c' q q'
    assume h: "inBounds r c \<and> inBounds r' c' \<and> sq b' r c = Some q \<and> sq b' r' c' = Some q'
                \<and> pieceId q = pieceId q'"
    show "r = r' \<and> c = c'"
    proof (cases "r = tr \<and> c = tc")
      case True
      with h new [of r c] have qw: "q = w" by simp
      show ?thesis
      proof (cases "r' = tr \<and> c' = tc")
        case True
        with \<open>r = tr \<and> c = tc\<close> show ?thesis by simp
      next
        case False
        with h old [of r' c' q'] have o: "sq b r' c' = Some q'" "\<not> (r' = fr \<and> c' = fc)" by simp_all
        from h qw have "pieceId q' = pieceId w" by simp
        from idw [OF _ o(1) this] h o(2) False show ?thesis by simp
      qed
    next
      case False
      with h old [of r c q] have o: "sq b r c = Some q" "\<not> (r = fr \<and> c = fc)" by simp_all
      show ?thesis
      proof (cases "r' = tr \<and> c' = tc")
        case True
        with h new [of r' c'] have "q' = w" by simp
        with h have "pieceId q = pieceId w" by simp
        from idw [OF _ o(1) this] h o(2) False show ?thesis by simp
      next
        case F2: False
        with h old [of r' c' q'] have "sq b r' c' = Some q'" by simp
        with o h ids show ?thesis unfolding idsOK_def by blast
      qed
    qed
  qed
qed

lemma sq_two_writes:
  assumes wf: "wfBoard b" and f: "inBounds fr fc" and t: "inBounds tr tc" and i: "inBounds r c"
  shows "sq (setSq (setSq b fr fc None) tr tc (Some w)) r c
         = (if r = tr \<and> c = tc then Some w else if r = fr \<and> c = fc then None else sq b r c)"
proof -
  have a: "sq (setSq (setSq b fr fc None) tr tc (Some w)) r c
           = (if r = tr \<and> c = tc then Some w else sq (setSq b fr fc None) r c)"
    using sq_setSq [OF wfBoard_setSq [OF wf] t i] .
  have b: "sq (setSq b fr fc None) r c = (if r = fr \<and> c = fc then None else sq b r c)"
    using sq_setSq [OF wf f i] .
  show ?thesis by (simp only: a b)
qed

lemma pawnOK_position [simp]: "pawnOK (p\<lparr>position := x\<rparr>) = pawnOK p"
  by (simp add: pawnOK_def)

lemma applyMove_inv:
  assumes wf: "wfBoard b" and p: "piecesOK b" and ids: "idsOK b"
    and f: "inBounds (row (m_from mv)) (col (m_from mv))"
    and t: "inBounds (row (m_to mv)) (col (m_to mv))"
    and pr: "promotion mv \<noteq> Some Pawn"
  shows "wfBoard (applyMove b mv) \<and> piecesOK (applyMove b mv) \<and> idsOK (applyMove b mv)"
proof (cases "sq b (row (m_from mv)) (col (m_from mv))")
  case None
  with wf p ids show ?thesis by (simp add: applyMove_def)
next
  case (Some piece)
  define moved where "moved = (case promotion mv of
        None \<Rightarrow> piece\<lparr>position := Some \<lparr>row = row (m_to mv), col = col (m_to mv)\<rparr>\<rparr>
      | Some cls \<Rightarrow> piece\<lparr>position := Some \<lparr>row = row (m_to mv), col = col (m_to mv)\<rparr>,
                         pieceClass := cls\<rparr>)"
  have am: "applyMove b mv = setSq (setSq b (row (m_from mv)) (col (m_from mv)) None)
               (row (m_to mv)) (col (m_to mv)) (Some moved)"
    using Some by (simp add: applyMove_def Let_def moved_def split: option.splits)
  have wf': "wfBoard (applyMove b mv)"
    unfolding am by (intro wfBoard_setSq wf)
  from p f Some have pk: "pieceOK (row (m_from mv)) (col (m_from mv)) piece"
    by (auto simp: piecesOK_def)
  have ok: "pieceOK (row (m_to mv)) (col (m_to mv)) moved"
  proof (cases "promotion mv")
    case None
    with pk show ?thesis by (simp add: moved_def pieceOK_def)
  next
    case (Some cls)
    with pr have "cls \<noteq> Pawn" by simp
    with Some show ?thesis by (simp add: moved_def pieceOK_def)
  qed
  have idm: "pieceId moved = pieceId piece"
    by (simp add: moved_def split: option.splits)
  have idw: "(r = row (m_from mv) \<and> c = col (m_from mv)) \<or> (r = row (m_to mv) \<and> c = col (m_to mv))"
    if "inBounds r c" "sq b r c = Some q" "pieceId q = pieceId moved" for r c q
    using that ids f \<open>sq b (row (m_from mv)) (col (m_from mv)) = Some piece\<close> idm
    unfolding idsOK_def by metis
  from inv_after_move [OF p ids _ ok idw, of "applyMove b mv"] sq_two_writes [OF wf f t] am wf'
  show ?thesis by simp
qed

lemma makeMove_InrE:
  assumes "makeMove st mv = Inr st'"
  shows "\<exists>piece m. readSquare (board st) (m_from mv) = Inr (Some piece)
           \<and> owner piece = currentPlayer st
           \<and> m \<in> set (getLegalMoves (board st) piece (m_from mv))
           \<and> row (m_to m) = row (m_to mv) \<and> col (m_to m) = col (m_to mv)
           \<and> promotion m = promotion mv
           \<and> ((isCapture mv \<and> (\<exists>dfn. readSquare (board st) (m_to mv) = Inr (Some dfn)
                   \<and> st' = st\<lparr>phase := Combat,
                        pendingCombat := Some \<lparr>p_attacker = piece, p_defender = dfn, p_move = mv\<rparr>\<rparr>))
              \<or> (\<not> isCapture mv \<and> st' = advanceTurn st (applyMove (board st) mv) mv))"
proof -
  from assms obtain piece where src: "readSquare (board st) (m_from mv) = Inr (Some piece)"
    by (cases "readSquare (board st) (m_from mv)")
       (auto simp: makeMove_def split: option.splits)
  from assms src have own: "owner piece = currentPlayer st"
    by (simp add: makeMove_def split: if_splits)
  from assms src own have ex: "list_ex (\<lambda>m. row (m_to m) = row (m_to mv) \<and> col (m_to m) = col (m_to mv)
                        \<and> promotion m = promotion mv)
              (getLegalMoves (board st) piece (m_from mv))"
    by (simp add: makeMove_def Let_def split: if_splits)
  then obtain m where m: "m \<in> set (getLegalMoves (board st) piece (m_from mv))"
    "row (m_to m) = row (m_to mv)" "col (m_to m) = col (m_to mv)" "promotion m = promotion mv"
    unfolding list_ex_iff by blast
  have rest: "(isCapture mv \<and> (\<exists>dfn. readSquare (board st) (m_to mv) = Inr (Some dfn)
                   \<and> st' = st\<lparr>phase := Combat,
                        pendingCombat := Some \<lparr>p_attacker = piece, p_defender = dfn, p_move = mv\<rparr>\<rparr>))
              \<or> (\<not> isCapture mv \<and> st' = advanceTurn st (applyMove (board st) mv) mv)"
  proof (cases "isCapture mv")
    case True
    with assms src own ex show ?thesis
      by (cases "readSquare (board st) (m_to mv)")
         (auto simp: makeMove_def Let_def split: option.splits)
  next
    case False
    with assms src own ex show ?thesis by (simp add: makeMove_def Let_def)
  qed
  from src own m rest show ?thesis by blast
qed

lemma advanceTurn_fields:
  "board (advanceTurn st nb mv) = nb" "pendingCombat (advanceTurn st nb mv) = None"
  by (simp_all add: advanceTurn_def Let_def split_def)

lemma makeMove_inv:
  assumes inv: "gameInv st" and mk: "makeMove st mv = Inr st'"
  shows "gameInv st'"
proof -
  from inv have wf: "wfBoard (board st)" and p: "piecesOK (board st)" and ids: "idsOK (board st)"
    by (simp_all add: gameInv_def)
  from makeMove_InrE [OF mk] obtain piece m where
    src: "readSquare (board st) (m_from mv) = Inr (Some piece)"
    and m: "m \<in> set (getLegalMoves (board st) piece (m_from mv))"
      "row (m_to m) = row (m_to mv)" "col (m_to m) = col (m_to mv)" "promotion m = promotion mv"
    and rest: "(isCapture mv \<and> (\<exists>dfn. readSquare (board st) (m_to mv) = Inr (Some dfn)
                   \<and> st' = st\<lparr>phase := Combat,
                        pendingCombat := Some \<lparr>p_attacker = piece, p_defender = dfn, p_move = mv\<rparr>\<rparr>))
              \<or> (\<not> isCapture mv \<and> st' = advanceTurn st (applyMove (board st) mv) mv)"
    by blast
  have f: "inBounds (row (m_from mv)) (col (m_from mv))"
    using readSquare_Some_inBounds [OF wf src] .
  from moveOK_legal [OF m(1)] m(2,3,4) have t: "inBounds (row (m_to mv)) (col (m_to mv))"
    and pr: "promotion mv \<noteq> Some Pawn"
    by (auto simp: moveOK_def)
  from rest show ?thesis
  proof
    assume "isCapture mv \<and> (\<exists>dfn. readSquare (board st) (m_to mv) = Inr (Some dfn)
                   \<and> st' = st\<lparr>phase := Combat,
                        pendingCombat := Some \<lparr>p_attacker = piece, p_defender = dfn, p_move = mv\<rparr>\<rparr>)"
    then obtain dfn where d: "readSquare (board st) (m_to mv) = Inr (Some dfn)"
      and st': "st' = st\<lparr>phase := Combat,
                        pendingCombat := Some \<lparr>p_attacker = piece, p_defender = dfn, p_move = mv\<rparr>\<rparr>"
      by blast
    have "pendingOK st'"
      using f t readSquare_Some [OF src] readSquare_Some [OF d]
      by (simp add: pendingOK_def st')
    with wf p ids show ?thesis by (simp add: gameInv_def st')
  next
    assume "\<not> isCapture mv \<and> st' = advanceTurn st (applyMove (board st) mv) mv"
    then have st': "st' = advanceTurn st (applyMove (board st) mv) mv" by simp
    from applyMove_inv [OF wf p ids f t pr] show ?thesis
      by (simp add: gameInv_def st' advanceTurn_fields pendingOK_def)
  qed
qed

lemma upgradeDie_values [simp]:
  "upgradeDie 6 = 8" "upgradeDie 8 = 10" "upgradeDie 10 = 12" "upgradeDie 12 = 12"
  by (simp_all add: upgradeDie_def DIE_PROGRESSION_def)

lemma stats_pawn:
  assumes "s = 0 \<or> s = 1 \<or> s = 2"
  shows "st_hp (getStatsWithEvolution Pawn s sm tgt False) = st_hp (BASE_STATS Pawn) + 4 * s
       \<and> st_die (getStatsWithEvolution Pawn s sm tgt False) = DIE_PROGRESSION ! nat s"
proof -
  from assms show ?thesis
    by (auto simp: getStatsWithEvolution_def BASE_STATS_def DIE_PROGRESSION_def Let_def
          numeral_2_eq_2)
qed

lemma pawnEvolution_other:
  "pieceClass q \<noteq> Pawn \<Longrightarrow> pawnEvolution cat q = q"
  by (simp add: pawnEvolution_def)

lemma pawnEvolution_frame:
  "pieceId (pawnEvolution cat q) = pieceId q \<and> position (pawnEvolution cat q) = position q
   \<and> pieceClass (pawnEvolution cat q) = pieceClass q \<and> owner (pawnEvolution cat q) = owner q
   \<and> combatsWon (pawnEvolution cat q) = combatsWon q"
  by (simp add: pawnEvolution_def Let_def)

lemma pawn_win:
  assumes cls: "pieceClass q = Pawn"
    and ok: "0 \<le> combatsWon p" "stage p = min (combatsWon p) 2"
      "die p = DIE_PROGRESSION ! nat (stage p)" "maxHp p = st_hp (BASE_STATS Pawn) + 4 * stage p"
    and q: "combatsWon q = combatsWon p + 1" "stage q = stage p" "die q = die p" "maxHp q = maxHp p"
  shows "pawnOK (pawnEvolution cat q)
       \<and> (if combatsWon q \<le> 2 \<and> stage q < 2
          then stage (pawnEvolution cat q) = stage q + 1
             \<and> maxHp (pawnEvolution cat q) = st_hp (BASE_STATS Pawn) + 4 * (stage q + 1)
             \<and> currentHp (pawnEvolution cat q) = maxHp (pawnEvolution cat q)
             \<and> die (pawnEvolution cat q) = upgradeDie (die q)
             \<and> die (pawnEvolution cat q) \<noteq> die q
          else pawnEvolution cat q = q)"
proof (cases "combatsWon q \<le> 2 \<and> stage q < 2")
  case True
  with ok q have s: "stage q = 0 \<or> stage q = 1" and cw: "combatsWon q = stage q + 1"
    by auto
  then have s1: "stage q + 1 = 0 \<or> stage q + 1 = 1 \<or> stage q + 1 = 2" by auto
  define sm where "sm = (case getClassification cat (pokemonId q) of None \<Rightarrow> 0 | Some c \<Rightarrow> cl_speciesMod c)"
  define tg where "tg = (case getClassification cat (pokemonId q) of
                                 None \<Rightarrow> DefenseTarget | Some c \<Rightarrow> cl_speciesModTarget c)"
  define ns where "ns = getStatsWithEvolution Pawn (stage q + 1) sm tg False"
  have ev: "pawnEvolution cat q = q\<lparr>stage := stage q + 1, maxHp := st_hp ns, currentHp := st_hp ns,
        attack := st_attack ns, defense := st_defense ns, die := st_die ns\<rparr>"
    using True cls cw by (simp add: pawnEvolution_def Let_def ns_def sm_def tg_def)
  from stats_pawn [OF s1, of sm tg] have hp: "st_hp ns = st_hp (BASE_STATS Pawn) + 4 * (stage q + 1)"
    and di: "st_die ns = DIE_PROGRESSION ! nat (stage q + 1)" by (simp_all add: ns_def)
  have up: "DIE_PROGRESSION ! nat (stage q + 1) = upgradeDie (die q)"
    "DIE_PROGRESSION ! nat (stage q + 1) \<noteq> die q"
    using s ok(3) q by (auto simp: DIE_PROGRESSION_def)
  have "pawnOK (pawnEvolution cat q)"
    unfolding ev using s cw hp di ok(1) q(1) by (auto simp: pawnOK_def)
  with True ev hp di up show ?thesis by simp
next
  case False
  then have "pawnEvolution cat q = q" using cls by (auto simp: pawnEvolution_def Let_def)
  moreover from False ok q have "stage q = 2" "2 \<le> combatsWon p" by (auto simp: min_def split: if_splits)
  then have "pawnOK q" using ok q by (simp add: pawnOK_def)
  ultimately show ?thesis using False by simp
qed

lemma writeSquare_wf:
  assumes "wfBoard b" and "inBounds (row pos) (col pos)"
  shows "writeSquare b pos v = Inr (setSq b (row pos) (col pos) v)"
proof -
  from assms have r: "0 \<le> row pos" "nat (row pos) < length b"
    by (simp_all add: wfBoard_def inBounds_def nat_less_8)
  then have "b ! nat (row pos) \<in> set b" by simp
  with assms have "0 \<le> col pos" "nat (col pos) < length (b ! nat (row pos))"
    by (simp_all add: wfBoard_def inBounds_def nat_less_8)
  with r show ?thesis by (simp add: writeSquare_def)
qed

lemma resolve_InrE:
  assumes "resolvePendingCombat cat st rs = Some (Inr st')"
  shows "\<exists>pc atkPokemon defPokemon res b1 nb.
           pendingCombat st = Some pc
         \<and> getPokemonById cat (pokemonId (p_attacker pc)) = Some atkPokemon
         \<and> getPokemonById cat (pokemonId (p_defender pc)) = Some defPokemon
         \<and> resolveCombat (combatantOf atkPokemon (p_attacker pc))
              (combatantOf defPokemon (p_defender pc)) rs = Some res
         \<and> writeSquare (board st) (m_from (p_move pc)) None = Inr b1
         \<and> writeSquare b1 (m_to (p_move pc)) (Some (winnerPiece cat pc res)) = Inr nb
         \<and> st' = advanceTurn (st\<lparr>lastCombatResult := Some res, pendingCombat := None\<rparr>) nb
                    (p_move pc)"
proof -
  from assms obtain pc where pc: "pendingCombat st = Some pc"
    by (cases "pendingCombat st") (simp_all add: resolvePendingCombat_def)
  from assms pc obtain atkPokemon defPokemon where
    pk: "getPokemonById cat (pokemonId (p_attacker pc)) = Some atkPokemon"
        "getPokemonById cat (pokemonId (p_defender pc)) = Some defPokemon"
    by (cases "getPokemonById cat (pokemonId (p_attacker pc))";
        cases "getPokemonById cat (pokemonId (p_defender pc))")
       (simp_all add: resolvePendingCombat_def Let_def)
  from assms pc pk obtain res where
    res: "resolveCombat (combatantOf atkPokemon (p_attacker pc))
              (combatantOf defPokemon (p_defender pc)) rs = Some res"
    by (cases "resolveCombat (combatantOf atkPokemon (p_attacker pc))
              (combatantOf defPokemon (p_defender pc)) rs")
       (simp_all add: resolvePendingCombat_def Let_def combatantOf_def)
  from assms pc pk res obtain b1 where
    b1: "writeSquare (board st) (m_from (p_move pc)) None = Inr b1"
    by (cases "writeSquare (board st) (m_from (p_move pc)) None")
       (simp_all add: resolvePendingCombat_def Let_def combatantOf_def)
  from assms pc pk res b1 obtain nb where
    nb: "writeSquare b1 (m_to (p_move pc)) (Some (winnerPiece cat pc res)) = Inr nb"
    by (cases "writeSquare b1 (m_to (p_move pc)) (Some (winnerPiece cat pc res))")
       (simp_all add: resolvePendingCombat_def Let_def combatantOf_def winnerPiece_def)
  from assms pc pk res b1 nb
  have "st' = advanceTurn (st\<lparr>lastCombatResult := Some res, pendingCombat := None\<rparr>) nb (p_move pc)"
    by (simp add: resolvePendingCombat_def Let_def combatantOf_def winnerPiece_def)
  with pc pk res b1 nb show ?thesis by blast
qed

lemma winnerPiece_ok:
  assumes a: "pieceOK fr fc (p_attacker pc)" and d: "pieceOK (row (m_to (p_move pc))) (col (m_to (p_move pc))) (p_defender pc)"
  shows "pieceOK (row (m_to (p_move pc))) (col (m_to (p_move pc))) (winnerPiece cat pc res)"
proof (cases "r_winner res = Attacker")
  case True
  define q where "q = (p_attacker pc)\<lparr>currentHp := attackerHpRemaining res,
                  combatsWon := combatsWon (p_attacker pc) + 1,
                  position := Some \<lparr>row = row (m_to (p_move pc)), col = col (m_to (p_move pc))\<rparr>\<rparr>"
  have w: "winnerPiece cat pc res = pawnEvolution cat q"
    using True by (simp add: winnerPiece_def q_def)
  have pos: "position (pawnEvolution cat q) = Some \<lparr>row = row (m_to (p_move pc)), col = col (m_to (p_move pc))\<rparr>"
    using pawnEvolution_frame [of cat q] by (simp add: q_def)
  have "pawnOK (pawnEvolution cat q)" if "pieceClass (pawnEvolution cat q) = Pawn"
  proof -
    from that pawnEvolution_frame [of cat q] have c: "pieceClass q = Pawn" by simp
    then have "pieceClass (p_attacker pc) = Pawn" by (simp add: q_def)
    with a have "pawnOK (p_attacker pc)" by (simp add: pieceOK_def)
    then have ok: "0 \<le> combatsWon (p_attacker pc)"
      "stage (p_attacker pc) = min (combatsWon (p_attacker pc)) 2"
      "die (p_attacker pc) = DIE_PROGRESSION ! nat (stage (p_attacker pc))"
      "maxHp (p_attacker pc) = st_hp (BASE_STATS Pawn) + 4 * stage (p_attacker pc)"
      by (simp_all add: pawnOK_def)
    have qq: "combatsWon q = combatsWon (p_attacker pc) + 1" "stage q = stage (p_attacker pc)"
      "die q = die (p_attacker pc)" "maxHp q = maxHp (p_attacker pc)"
      by (simp_all add: q_def)
    from pawn_win [OF c ok qq] show ?thesis by simp
  qed
  with pos w show ?thesis by (simp add: pieceOK_def)
next
  case False
  define q where "q = (p_defender pc)\<lparr>currentHp := defenderHpRemaining res,
                  combatsWon := combatsWon (p_defender pc) + 1\<rparr>"
  have w: "winnerPiece cat pc res = pawnEvolution cat q"
    using False by (simp add: winnerPiece_def q_def)
  have pos: "position (pawnEvolution cat q) = Some \<lparr>row = row (m_to (p_move pc)), col = col (m_to (p_move pc))\<rparr>"
    using pawnEvolution_frame [of cat q] d by (simp add: q_def pieceOK_def)
  have "pawnOK (pawnEvolution cat q)" if "pieceClass (pawnEvolution cat q) = Pawn"
  proof -
    from that pawnEvolution_frame [of cat q] have c: "pieceClass q = Pawn" by simp
    then have "pieceClass (p_defender pc) = Pawn" by (simp add: q_def)
    with d have "pawnOK (p_defender pc)" by (simp add: pieceOK_def)
    then have ok: "0 \<le> combatsWon (p_defender pc)"
      "stage (p_defender pc) = min (combatsWon (p_defender pc)) 2"
      "die (p_defender pc) = DIE_PROGRESSION ! nat (stage (p_defender pc))"
      "maxHp (p_defender pc) = st_hp (BASE_STATS Pawn) + 4 * stage (p_defender pc)"
      by (simp_all add: pawnOK_def)
    have qq: "combatsWon q = combatsWon (p_defender pc) + 1" "stage q = stage (p_defender pc)"
      "die q = die (p_defender pc)" "maxHp q = maxHp (p_defender pc)"
      by (simp_all add: q_def)
    from pawn_win [OF c ok qq] show ?thesis by simp
  qed
  with pos w show ?thesis by (simp add: pieceOK_def)
qed

lemma winnerPiece_id:
  "pieceId (winnerPiece cat pc res)
   = (if r_winner res = Attacker then pieceId (p_attacker pc) else pieceId (p_defender pc))"
  using pawnEvolution_frame by (simp add: winnerPiece_def)

lemma resolve_board:
  assumes inv: "gameInv st" and run: "resolvePendingCombat cat st rs = Some (Inr st')"
  shows "\<exists>pc res. pendingCombat st = Some pc \<and> lastCombatResult st' = Some res
          \<and> pendingCombat st' = None
          \<and> board st' = setSq (setSq (board st) (row (m_from (p_move pc))) (col (m_from (p_move pc))) None)
                (row (m_to (p_move pc))) (col (m_to (p_move pc))) (Some (winnerPiece cat pc res))"
proof -
  from inv have wf: "wfBoard (board st)" and pend: "pendingOK st" by (simp_all add: gameInv_def)
  from resolve_InrE [OF run] obtain pc res b1 nb where pc: "pendingCombat st = Some pc"
    and b1: "writeSquare (board st) (m_from (p_move pc)) None = Inr b1"
    and nb: "writeSquare b1 (m_to (p_move pc)) (Some (winnerPiece cat pc res)) = Inr nb"
    and st': "st' = advanceTurn (st\<lparr>lastCombatResult := Some res, pendingCombat := None\<rparr>) nb
                    (p_move pc)"
    by blast
  from pend pc have f: "inBounds (row (m_from (p_move pc))) (col (m_from (p_move pc)))"
    and t: "inBounds (row (m_to (p_move pc))) (col (m_to (p_move pc)))"
    by (simp_all add: pendingOK_def)
  from b1 writeSquare_wf [OF wf f] have e1: "b1 = setSq (board st) (row (m_from (p_move pc))) (col (m_from (p_move pc))) None"
    by simp
  have wf1: "wfBoard b1" unfolding e1 by (intro wfBoard_setSq wf)
  from nb writeSquare_wf [OF wf1 t] have e2: "nb = setSq b1 (row (m_to (p_move pc))) (col (m_to (p_move pc))) (Some (winnerPiece cat pc res))"
    by simp
  have l: "lastCombatResult st' = Some res"
    by (simp add: st' advanceTurn_def Let_def split_def)
  from pc l e1 e2 show ?thesis by (simp add: st' advanceTurn_fields)
qed

lemma resolve_inv:
  assumes inv: "gameInv st" and run: "resolvePendingCombat cat st rs = Some (Inr st')"
  shows "gameInv st'"
proof -
  from inv have wf: "wfBoard (board st)" and p: "piecesOK (board st)" and ids: "idsOK (board st)"
    and pend: "pendingOK st" by (simp_all add: gameInv_def)
  from resolve_board [OF inv run] obtain pc res where pc: "pendingCombat st = Some pc"
    and pn: "pendingCombat st' = None"
    and b': "board st' = setSq (setSq (board st) (row (m_from (p_move pc))) (col (m_from (p_move pc))) None)
                (row (m_to (p_move pc))) (col (m_to (p_move pc))) (Some (winnerPiece cat pc res))"
    by blast
  let ?fr = "row (m_from (p_move pc))" and ?fc = "col (m_from (p_move pc))"
  let ?tr = "row (m_to (p_move pc))" and ?tc = "col (m_to (p_move pc))"
  from pend pc have f: "inBounds ?fr ?fc" and t: "inBounds ?tr ?tc"
    and a: "sq (board st) ?fr ?fc = Some (p_attacker pc)"
    and d: "sq (board st) ?tr ?tc = Some (p_defender pc)"
    by (simp_all add: pendingOK_def)
  from p f a have pa: "pieceOK ?fr ?fc (p_attacker pc)" by (auto simp: piecesOK_def)
  from p t d have pd: "pieceOK ?tr ?tc (p_defender pc)" by (auto simp: piecesOK_def)
  note ok = winnerPiece_ok [OF pa pd, of cat res]
  have idw: "(r = ?fr \<and> c = ?fc) \<or> (r = ?tr \<and> c = ?tc)"
    if h: "inBounds r c" "sq (board st) r c = Some q" "pieceId q = pieceId (winnerPiece cat pc res)" for r c q
  proof (cases "r_winner res = Attacker")
    case True
    with h(3) have "pieceId q = pieceId (p_attacker pc)" by (simp add: winnerPiece_id)
    with ids h(1,2) f a have "r = ?fr \<and> c = ?fc" unfolding idsOK_def by blast
    then show ?thesis by simp
  next
    case False
    with h(3) have "pieceId q = pieceId (p_defender pc)" by (simp add: winnerPiece_id)
    with ids h(1,2) t d have "r = ?tr \<and> c = ?tc" unfolding idsOK_def by blast
    then show ?thesis by simp
  qed
  have wf': "wfBoard (board st')" unfolding b' by (intro wfBoard_setSq wf)
  from inv_after_move [OF p ids _ ok idw, of "board st'"] sq_two_writes [OF wf f t] b'
  have "piecesOK (board st') \<and> idsOK (board st')" by simp
  with wf' pn show ?thesis by (simp add: gameInv_def pendingOK_def)
qed

lemma foldE_Inr_invariant:
  assumes "foldE f xs s = Inr s'" and "I s"
    and "\<And>x s s1. x \<in> set xs \<Longrightarrow> I s \<Longrightarrow> f x s = Inr s1 \<Longrightarrow> I s1"
  shows "I s'"
  using assms
proof (induction xs arbitrary: s)
  case Nil
  then show ?case by simp
next
  case (Cons x xs)
  from Cons.prems(1) obtain s1 where s1: "f x s = Inr s1" and r: "foldE f xs s1 = Inr s'"
    by (cases "f x s") simp_all
  from Cons.prems(3) [of x s s1] Cons.prems(2) s1 have i1: "I s1" by simp
  show ?case
  proof (rule Cons.IH [OF r i1])
    fix y t t1 assume "y \<in> set xs" "I t" "f y t = Inr t1"
    then show "I t1" using Cons.prems(3) [of y t t1] by simp
  qed
qed

lemma createGamePiece_ok:
  assumes "createGamePiece cat slot ownr \<lparr>row = r, col = c\<rparr> n = Inr (piece, n')"
  shows "n' = n + 1 \<and> pieceId piece = n + 1 \<and> pieceOK r c piece"
proof -
  from assms obtain pokemon where pk: "getPokemonById cat (slotPokemonId slot) = Some pokemon"
    by (cases "getPokemonById cat (slotPokemonId slot)") (simp_all add: createGamePiece_def)
  define sm where "sm = (case getClassification cat (slotPokemonId slot) of
                           None \<Rightarrow> 0 | Some c \<Rightarrow> cl_speciesMod c)"
  define tg where "tg = (case getClassification cat (slotPokemonId slot) of
                           None \<Rightarrow> DefenseTarget | Some c \<Rightarrow> cl_speciesModTarget c)"
  define stats where "stats = getStatsWithEvolution (slotPieceClass slot) 0 sm tg
                                (pd_id pokemon = 150 \<and> slotPieceClass slot = King)"
  from assms pk have pc: "piece = \<lparr>pieceId = n + 1, pokemonId = slotPokemonId slot,
        pieceClass = slotPieceClass slot, owner = ownr, currentHp = st_hp stats,
        maxHp = st_hp stats, attack = st_attack stats, defense = st_defense stats,
        die = st_die stats, stage = 0, combatsWon = 0, speciesMod = sm,
        position = Some \<lparr>row = r, col = c\<rparr>\<rparr>" and n: "n' = n + 1"
    by (auto simp: createGamePiece_def Let_def sm_def tg_def stats_def)
  have "pawnOK piece" if "pieceClass piece = Pawn"
  proof -
    from that pc have "slotPieceClass slot = Pawn" by simp
    then have "st_die stats = 6" "st_hp stats = 33"
      by (simp_all add: stats_def getStatsWithEvolution_def BASE_STATS_def Let_def)
    then show ?thesis by (simp add: pc pawnOK_def DIE_PROGRESSION_def BASE_STATS_def)
  qed
  moreover have "position piece = Some \<lparr>row = r, col = c\<rparr>" "pieceId piece = n + 1"
    by (simp_all add: pc)
  ultimately show ?thesis using n by (simp add: pieceOK_def)
qed

lemma place_one:
  assumes inv: "placeInv (b, n)" and i: "inBounds r c" and ok: "pieceOK r c piece"
    and id: "pieceId piece = n + 1"
  shows "placeInv (setSq b r c (Some piece), n + 1)"
proof -
  from inv have wf: "wfBoard b" and p: "piecesOK b" and ids: "idsOK b"
    and le: "\<And>r c q. inBounds r c \<Longrightarrow> sq b r c = Some q \<Longrightarrow> pieceId q \<le> n"
    by (auto simp: placeInv_def)
  let ?b = "setSq b r c (Some piece)"
  have new: "sq ?b r' c' = (if r' = r \<and> c' = c then Some piece
                     else if r' = r \<and> c' = c then None else sq b r' c')" if "inBounds r' c'" for r' c'
    using sq_setSq [OF wf i that] by simp
  have idw: "(r' = r \<and> c' = c) \<or> (r' = r \<and> c' = c)"
    if "inBounds r' c'" "sq b r' c' = Some q" "pieceId q = pieceId piece" for r' c' q
    using le [OF that(1,2)] that(3) id by simp
  from inv_after_move [OF p ids new ok idw] have a: "piecesOK ?b" "idsOK ?b" by simp_all
  have "pieceId q \<le> n + 1" if "inBounds r' c'" "sq ?b r' c' = Some q" for r' c' q
  proof (cases "r' = r \<and> c' = c")
    case True
    with that new [of r' c'] id show ?thesis by simp
  next
    case False
    with that new [of r' c'] have "sq b r' c' = Some q" by simp
    from le [OF that(1) this] show ?thesis by simp
  qed
  with a wfBoard_setSq [OF wf] show ?thesis by (auto simp: placeInv_def)
qed

lemma placeRow_inv:
  assumes run: "placeRow cat ownr r slots s = Inr s'" and inv: "placeInv s"
    and r: "0 \<le> r" "r < 8"
  shows "placeInv s'"
proof (rule foldE_Inr_invariant [where I = placeInv, OF run [unfolded placeRow_def] inv])
  fix x :: "TeamSlot \<times> nat" and s0 s1 :: "BoardState \<times> nat"
  assume i0: "placeInv s0"
    and step: "(case x of (slot, c) \<Rightarrow> \<lambda>(bd, counter).
                 if int c < 8 then
                   (case createGamePiece cat slot ownr \<lparr>row = r, col = int c\<rparr> counter of
                      Inl e \<Rightarrow> Inl e
                    | Inr (piece, counter') \<Rightarrow> Inr (setSq bd r (int c) (Some piece), counter'))
                 else Inr (bd, counter)) s0 = Inr s1"
  obtain slot c where x: "x = (slot, c)" by (cases x)
  obtain bd n where s0: "s0 = (bd, n)" by (cases s0)
  show "placeInv s1"
  proof (cases "int c < 8")
    case False
    with step x s0 i0 show ?thesis by simp
  next
    case True
    with step x s0 obtain piece n' where
      cg: "createGamePiece cat slot ownr \<lparr>row = r, col = int c\<rparr> n = Inr (piece, n')"
      and s1: "s1 = (setSq bd r (int c) (Some piece), n')"
      by (cases "createGamePiece cat slot ownr \<lparr>row = r, col = int c\<rparr> n") auto
    from createGamePiece_ok [OF cg] have k: "n' = n + 1" "pieceId piece = n + 1" "pieceOK r (int c) piece"
      by simp_all
    have ib: "inBounds r (int c)" using r True by (simp add: inBounds_def)
    from place_one [OF i0 [unfolded s0] ib k(3) k(2)] show ?thesis by (simp add: s1 k(1))
  qed
qed

lemma createEmptyBoard_inv: "placeInv (createEmptyBoard, 0)"
proof -
  have wf: "wfBoard createEmptyBoard" by (simp add: wfBoard_def createEmptyBoard_def)
  have e: "sq createEmptyBoard r c = None" if "inBounds r c" for r c
  proof -
    from that have "nat r < 8" "nat c < 8" by (simp_all add: inBounds_def nat_less_8)
    then show ?thesis by (simp add: sq_def createEmptyBoard_def)
  qed
  then have "piecesOK createEmptyBoard" "idsOK createEmptyBoard"
    by (auto simp: piecesOK_def idsOK_def)
  with wf e show ?thesis by (auto simp: placeInv_def)
qed

lemma setupBoard_inv:
  assumes "setupBoard cat whiteSlots blackSlots = Inr b"
  shows "wfBoard b \<and> piecesOK b \<and> idsOK b"
proof -
  from assms obtain s1 where s1: "placeRow cat White 7 (backRank whiteSlots) (createEmptyBoard, 0) = Inr s1"
    by (cases "placeRow cat White 7 (backRank whiteSlots) (createEmptyBoard, 0)")
       (simp_all add: setupBoard_def Let_def)
  from assms s1 obtain s2 where s2: "placeRow cat White 6 (getSlotsByClass whiteSlots Pawn) s1 = Inr s2"
    by (cases "placeRow cat White 6 (getSlotsByClass whiteSlots Pawn) s1")
       (simp_all add: setupBoard_def Let_def)
  from assms s1 s2 obtain s3 where s3: "placeRow cat Black 0 (backRank blackSlots) s2 = Inr s3"
    by (cases "placeRow cat Black 0 (backRank blackSlots) s2")
       (simp_all add: setupBoard_def Let_def)
  from assms s1 s2 s3 obtain s4 where s4: "placeRow cat Black 1 (getSlotsByClass blackSlots Pawn) s3 = Inr s4"
    and b: "b = fst s4"
    by (cases "placeRow cat Black 1 (getSlotsByClass blackSlots Pawn) s3")
       (auto simp: setupBoard_def Let_def split: prod.splits)
  have "placeInv s1" using placeRow_inv [OF s1 createEmptyBoard_inv] by simp
  then have "placeInv s2" using placeRow_inv [OF s2] by simp
  then have "placeInv s3" using placeRow_inv [OF s3] by simp
  then have "placeInv s4" using placeRow_inv [OF s4] by simp
  then show ?thesis by (simp add: placeInv_def b)
qed

lemma createGame_inv:
  assumes "createGame cat whiteSlots blackSlots = Inr st"
  shows "gameInv st"
proof -
  from assms obtain b where b: "setupBoard cat whiteSlots blackSlots = Inr b"
    and st: "st = \<lparr>board = b, currentPlayer = White, phase = Playing, moveHistory = [],
               turnNumber = 1, pendingCombat = None, lastCombatResult = None, winner = None\<rparr>"
    by (cases "setupBoard cat whiteSlots blackSlots") (auto simp: createGame_def)
  from setupBoard_inv [OF b] show ?thesis by (simp add: gameInv_def pendingOK_def st)
qed

lemma reachable_inv: "reachable cat st \<Longrightarrow> gameInv st"
proof (induction rule: reachable.induct)
  case (created whiteSlots blackSlots st)
  then show ?case by (rule createGame_inv)
next
  case (moved st mv st')
  then show ?case using makeMove_inv by blast
next
  case (resolved st rs st')
  then show ?case using resolve_inv by blast
qed

lemma playFrom_reachable:
  "reachable cat st \<Longrightarrow> playFrom cat (Inr st) acts = Some st' \<Longrightarrow> reachable cat st'"
proof (induction acts arbitrary: st)
  case Nil
  then show ?case by simp
next
  case (Cons a acts)
  show ?case
  proof (cases a)
    case (DoMove mv)
    with Cons.prems(2) obtain s where s: "makeMove st mv = Inr s"
      and p: "playFrom cat (Inr s) acts = Some st'"
      by (cases "makeMove st mv") simp_all
    from reachable.moved [OF Cons.prems(1) s] p show ?thesis by (rule Cons.IH)
  next
    case (DoResolve rs)
    with Cons.prems(2) obtain r where r: "resolvePendingCombat cat st rs = Some r"
      and p: "playFrom cat r acts = Some st'"
      by (cases "resolvePendingCombat cat st rs") simp_all
    from p obtain s where s: "r = Inr s" by (cases r) simp_all
    from reachable.resolved [OF Cons.prems(1) r [unfolded s]] p [unfolded s]
    show ?thesis by (rule Cons.IH)
  qed
qed

lemma playFrom_createGame:
  assumes "playFrom cat (createGame cat whiteSlots blackSlots) acts = Some st'"
  shows "reachable cat st'"
proof -
  from assms obtain s where s: "createGame cat whiteSlots blackSlots = Inr s"
    by (cases "createGame cat whiteSlots blackSlots") simp_all
  from reachable.created [OF s] assms [unfolded s] show ?thesis by (rule playFrom_reachable)
qed

subsection \<open>C9: the board of a reachable state\<close>

text \<open>
  C9. In every game state reachable from \<open>createGame\<close> by any sequence of accepted
  \<open>makeMove\<close> and \<open>resolvePendingCombat\<close> calls, under any die rolls, the board is a grid of
  8 rows of 8 squares, each square being empty or holding one piece; the position stored in
  a piece equals the coordinates of the square that holds it; and no piece occupies two
  distinct squares: two squares holding a piece with the same identifier are the same
  square. In the example game, after a won capture and a further move, the white Pawn
  stands on row 3, column 1 and stores that position.
\<close>

theorem reachable_board_consistent:
  assumes "reachable cat st"
  shows "length (board st) = 8 \<and> (\<forall>r \<in> set (board st). length r = 8)
       \<and> (\<forall>r c p. inBounds r c \<and> sq (board st) r c = Some p
              \<longrightarrow> position p = Some \<lparr>row = r, col = c\<rparr>)
       \<and> (\<forall>r c r' c' p p'. inBounds r c \<and> inBounds r' c'
              \<and> sq (board st) r c = Some p \<and> sq (board st) r' c' = Some p'
              \<and> pieceId p = pieceId p' \<longrightarrow> r = r' \<and> c = c')"
proof -
  from reachable_inv [OF assms] have wf: "wfBoard (board st)" and p: "piecesOK (board st)"
    and ids: "idsOK (board st)" by (simp_all add: gameInv_def)
  from p have "\<forall>r c p. inBounds r c \<and> sq (board st) r c = Some p
              \<longrightarrow> position p = Some \<lparr>row = r, col = c\<rparr>"
    by (simp add: piecesOK_def pieceOK_def)
  with wf ids show ?thesis by (simp add: wfBoard_def idsOK_def)
qed

theorem reachable_board_consistent_witness:
  "(case playFrom exCatalogue (createGame exCatalogue exWhite exBlack) exSecond of
      Some st \<Rightarrow>
        length (board st) = 8
        \<and> (case sq (board st) 3 1 of
             Some p \<Rightarrow> pieceClass p = Pawn \<and> position p = Some \<lparr>row = 3, col = 1\<rparr>
           | None \<Rightarrow> False)
    | None \<Rightarrow> False)"
proof -
  have "(case playFrom exCatalogue (createGame exCatalogue exWhite exBlack) exSecond of
      Some st \<Rightarrow> (case sq (board st) 3 1 of Some p \<Rightarrow> pieceClass p = Pawn | None \<Rightarrow> False)
    | None \<Rightarrow> False)"
    by code_simp
  then obtain st where st: "playFrom exCatalogue (createGame exCatalogue exWhite exBlack) exSecond = Some st"
    and a: "(case sq (board st) 3 1 of Some p \<Rightarrow> pieceClass p = Pawn | None \<Rightarrow> False)"
    by (cases "playFrom exCatalogue (createGame exCatalogue exWhite exBlack) exSecond") simp_all
  from a obtain p where p: "sq (board st) 3 1 = Some p" and c: "pieceClass p = Pawn"
    by (cases "sq (board st) 3 1") simp_all
  have r: "reachable exCatalogue st" using st by (rule playFrom_createGame)
  have b: "inBounds 3 1" by (simp add: inBounds_def)
  from reachable_board_consistent [OF r] b p
  have "length (board st) = 8 \<and> position p = Some \<lparr>row = 3, col = 1\<rparr>" by blast
  with st p c show ?thesis by simp
qed

subsection \<open>C6: pawn evolution on a combat win\<close>

text \<open>
  C6. In a state of a game (reachable from \<open>createGame\<close>), an accepted
  \<open>resolvePendingCombat\<close> leaves the winner of the combat, attacker or defender, on the
  target square of the move with its win counter incremented. When the winner is a Pawn and
  this is its first or second win and its stage is below 2, its stage advances by one, its
  maximum and current hit points are both the maximum of the new stage (the base hit points
  of the class plus 4 for each stage), and its die is upgraded one step along 6, 8, 10, 12;
  otherwise stage, maximum hit points and die are unchanged. Consequently a Pawn whose
  second win this is has stage 2, maximum hit points base plus 8, which is 41, and the base
  die upgraded twice, which is 10; the catalogue, and with it the species modifier, is
  arbitrary. The states of a game are those in which the win counter and the stage of
  a Pawn have moved together since its creation, which is what the first or the second win
  of a Pawn refers to. In the example game the white Pawn wins its second combat and then
  has stage 2, 41 hit points and a d10.
\<close>

theorem pawn_evolution_on_win:
  assumes "reachable cat st" and "resolvePendingCombat cat st rs = Some (Inr st')"
  shows "\<exists>pc res w w'.
           pendingCombat st = Some pc \<and> lastCombatResult st' = Some res
         \<and> w = (if r_winner res = Attacker then p_attacker pc else p_defender pc)
         \<and> sq (board st') (row (m_to (p_move pc))) (col (m_to (p_move pc))) = Some w'
         \<and> pieceId w' = pieceId w
         \<and> combatsWon w' = combatsWon w + 1
         \<and> (pieceClass w = Pawn \<longrightarrow>
              pieceClass w' = Pawn
            \<and> (if combatsWon w' \<le> 2 \<and> stage w < 2
               then stage w' = stage w + 1
                  \<and> maxHp w' = st_hp (BASE_STATS Pawn) + 4 * stage w'
                  \<and> currentHp w' = maxHp w'
                  \<and> die w' = upgradeDie (die w) \<and> die w' \<noteq> die w
               else stage w' = stage w \<and> maxHp w' = maxHp w \<and> die w' = die w)
            \<and> (combatsWon w' = 2 \<longrightarrow>
                  stage w' = 2 \<and> maxHp w' = st_hp (BASE_STATS Pawn) + 8 \<and> maxHp w' = 41
                  \<and> die w' = upgradeDie (upgradeDie 6) \<and> die w' = 10))"
proof -
  note inv = reachable_inv [OF assms(1)]
  from inv have wf: "wfBoard (board st)" and p: "piecesOK (board st)" and pend: "pendingOK st"
    by (simp_all add: gameInv_def)
  from resolve_board [OF inv assms(2)] obtain pc res where pc: "pendingCombat st = Some pc"
    and l: "lastCombatResult st' = Some res"
    and b': "board st' = setSq (setSq (board st) (row (m_from (p_move pc))) (col (m_from (p_move pc))) None)
                (row (m_to (p_move pc))) (col (m_to (p_move pc))) (Some (winnerPiece cat pc res))"
    by blast
  let ?fr = "row (m_from (p_move pc))" and ?fc = "col (m_from (p_move pc))"
  let ?tr = "row (m_to (p_move pc))" and ?tc = "col (m_to (p_move pc))"
  from pend pc have f: "inBounds ?fr ?fc" and t: "inBounds ?tr ?tc"
    and a: "sq (board st) ?fr ?fc = Some (p_attacker pc)"
    and d: "sq (board st) ?tr ?tc = Some (p_defender pc)"
    by (simp_all add: pendingOK_def)
  define w where "w = (if r_winner res = Attacker then p_attacker pc else p_defender pc)"
  define q where "q = (if r_winner res = Attacker
      then (p_attacker pc)\<lparr>currentHp := attackerHpRemaining res,
                  combatsWon := combatsWon (p_attacker pc) + 1,
                  position := Some \<lparr>row = ?tr, col = ?tc\<rparr>\<rparr>
      else (p_defender pc)\<lparr>currentHp := defenderHpRemaining res,
                  combatsWon := combatsWon (p_defender pc) + 1\<rparr>)"
  define w' where "w' = winnerPiece cat pc res"
  have wq: "w' = pawnEvolution cat q" by (simp add: w'_def winnerPiece_def q_def)
  have qf: "pieceClass q = pieceClass w" "combatsWon q = combatsWon w + 1" "stage q = stage w"
    "die q = die w" "maxHp q = maxHp w" "pieceId q = pieceId w"
    by (simp_all add: q_def w_def)
  have at: "sq (board st') ?tr ?tc = Some w'"
    unfolding b' w'_def using sq_two_writes [OF wf f t t] by simp
  note fr = pawnEvolution_frame [of cat q]
  have ids: "pieceId w' = pieceId w" "combatsWon w' = combatsWon w + 1"
    using fr qf by (simp_all add: wq)
  have wOK: "pawnOK w" if "pieceClass w = Pawn"
  proof (cases "r_winner res = Attacker")
    case True
    with that p f a show ?thesis by (auto simp: w_def piecesOK_def pieceOK_def)
  next
    case False
    with that p t d show ?thesis by (auto simp: w_def piecesOK_def pieceOK_def)
  qed
  have pawn: "pieceClass w' = Pawn
            \<and> (if combatsWon w' \<le> 2 \<and> stage w < 2
               then stage w' = stage w + 1
                  \<and> maxHp w' = st_hp (BASE_STATS Pawn) + 4 * stage w'
                  \<and> currentHp w' = maxHp w'
                  \<and> die w' = upgradeDie (die w) \<and> die w' \<noteq> die w
               else stage w' = stage w \<and> maxHp w' = maxHp w \<and> die w' = die w)
            \<and> (combatsWon w' = 2 \<longrightarrow>
                  stage w' = 2 \<and> maxHp w' = st_hp (BASE_STATS Pawn) + 8 \<and> maxHp w' = 41
                  \<and> die w' = upgradeDie (upgradeDie 6) \<and> die w' = 10)"
    if cls: "pieceClass w = Pawn"
  proof -
    from wOK [OF cls] have ok: "0 \<le> combatsWon w" "stage w = min (combatsWon w) 2"
      "die w = DIE_PROGRESSION ! nat (stage w)" "maxHp w = st_hp (BASE_STATS Pawn) + 4 * stage w"
      by (simp_all add: pawnOK_def)
    from cls qf have cq: "pieceClass q = Pawn" by simp
    note pw = pawn_win [OF cq ok qf(2,3,4,5), of cat]
    have c1: "pieceClass w' = Pawn" using fr cq by (simp add: wq)
    have c2: "if combatsWon w' \<le> 2 \<and> stage w < 2
               then stage w' = stage w + 1
                  \<and> maxHp w' = st_hp (BASE_STATS Pawn) + 4 * stage w'
                  \<and> currentHp w' = maxHp w'
                  \<and> die w' = upgradeDie (die w) \<and> die w' \<noteq> die w
               else stage w' = stage w \<and> maxHp w' = maxHp w \<and> die w' = die w"
    proof (cases "combatsWon q \<le> 2 \<and> stage q < 2")
      case True
      with pw have "stage w' = stage q + 1"
        "maxHp w' = st_hp (BASE_STATS Pawn) + 4 * (stage q + 1)" "currentHp w' = maxHp w'"
        "die w' = upgradeDie (die q)" "die w' \<noteq> die q" by (simp_all add: wq)
      with True qf ids show ?thesis by simp
    next
      case False
      with pw have "w' = q" by (simp add: wq)
      with False qf ids show ?thesis by simp
    qed
    have c3: "stage w' = 2 \<and> maxHp w' = st_hp (BASE_STATS Pawn) + 8 \<and> maxHp w' = 41
                  \<and> die w' = upgradeDie (upgradeDie 6) \<and> die w' = 10"
      if two: "combatsWon w' = 2"
    proof -
      from two ids have cw: "combatsWon w = 1" by simp
      with ok have s: "stage w = 1" "die w = 8" by (simp_all add: DIE_PROGRESSION_def)
      with c2 two show ?thesis by (simp add: BASE_STATS_def)
    qed
    from c1 c2 c3 show ?thesis by blast
  qed
  from pc l at ids pawn show ?thesis unfolding w_def by blast
qed

theorem pawn_evolution_on_win_witness:
  "(case playFrom exCatalogue (createGame exCatalogue exWhite exBlack) exSecond of
      Some st \<Rightarrow>
        (case resolvePendingCombat exCatalogue st (exRolls (7 / 8) 5) of
           Some (Inr st') \<Rightarrow>
             (case sq (board st') 2 0 of
                Some w' \<Rightarrow>
                  pieceClass w' = Pawn \<and> combatsWon w' = 2 \<and> stage w' = 2
                  \<and> maxHp w' = 41 \<and> currentHp w' = 41 \<and> die w' = 10
              | None \<Rightarrow> False)
         | _ \<Rightarrow> False)
    | None \<Rightarrow> False)"
proof -
  have "(case playFrom exCatalogue (createGame exCatalogue exWhite exBlack) exSecond of
      Some st \<Rightarrow>
        (case pendingCombat st of
           Some pc \<Rightarrow>
             pieceClass (p_attacker pc) = Pawn \<and> stage (p_attacker pc) = 1
             \<and> combatsWon (p_attacker pc) = 1
             \<and> m_to (p_move pc) = \<lparr>row = 2, col = 0\<rparr>
             \<and> (case resolvePendingCombat exCatalogue st (exRolls (7 / 8) 5) of
                  Some (Inr st') \<Rightarrow>
                    (case lastCombatResult st' of
                       Some res \<Rightarrow> r_winner res = Attacker
                     | None \<Rightarrow> False)
                | _ \<Rightarrow> False)
         | None \<Rightarrow> False)
    | None \<Rightarrow> False)"
    by code_simp
  then obtain st where st: "playFrom exCatalogue (createGame exCatalogue exWhite exBlack) exSecond = Some st"
    and a: "(case pendingCombat st of
           Some pc \<Rightarrow>
             pieceClass (p_attacker pc) = Pawn \<and> stage (p_attacker pc) = 1
             \<and> combatsWon (p_attacker pc) = 1
             \<and> m_to (p_move pc) = \<lparr>row = 2, col = 0\<rparr>
             \<and> (case resolvePendingCombat exCatalogue st (exRolls (7 / 8) 5) of
                  Some (Inr st') \<Rightarrow>
                    (case lastCombatResult st' of
                       Some res \<Rightarrow> r_winner res = Attacker
                     | None \<Rightarrow> False)
                | _ \<Rightarrow> False)
         | None \<Rightarrow> False)"
    by (cases "playFrom exCatalogue (createGame exCatalogue exWhite exBlack) exSecond") simp_all
  from a obtain pc where pc: "pendingCombat st = Some pc"
    and w: "pieceClass (p_attacker pc) = Pawn" "stage (p_attacker pc) = 1"
           "combatsWon (p_attacker pc) = 1" "m_to (p_move pc) = \<lparr>row = 2, col = 0\<rparr>"
    and b: "(case resolvePendingCombat exCatalogue st (exRolls (7 / 8) 5) of
                  Some (Inr st') \<Rightarrow>
                    (case lastCombatResult st' of
                       Some res \<Rightarrow> r_winner res = Attacker
                     | None \<Rightarrow> False)
                | _ \<Rightarrow> False)"
    by (cases "pendingCombat st") simp_all
  from b obtain x where x: "resolvePendingCombat exCatalogue st (exRolls (7 / 8) 5) = Some x"
    by (cases "resolvePendingCombat exCatalogue st (exRolls (7 / 8) 5)") simp_all
  from b x obtain st' where x': "x = Inr st'" by (cases x) simp_all
  from x x' have rs: "resolvePendingCombat exCatalogue st (exRolls (7 / 8) 5) = Some (Inr st')"
    by simp
  from b rs obtain res where res: "lastCombatResult st' = Some res" and win: "r_winner res = Attacker"
    by (cases "lastCombatResult st'") simp_all
  have r: "reachable exCatalogue st" using st by (rule playFrom_createGame)
  from pawn_evolution_on_win [OF r rs] pc res win w
  obtain w' where "sq (board st') 2 0 = Some w'" "pieceClass w' = Pawn" "combatsWon w' = 2"
    "stage w' = 2" "maxHp w' = 41" "currentHp w' = 41" "die w' = 10"
    by auto
  with st rs show ?thesis by simp
qed

subsection \<open>C10: the phase is never examined\<close>




text \<open>
  C10, as the code has it. A move can match a legal move of a piece of the active side
  (same target, same promotion) and still be rejected: in the example position the pawn push
  of Black is legal, but the same request flagged as a capture is rejected with
  \<open>no piece to capture\<close>, in the phase \<open>playing\<close> as in the phase \<open>checkmate\<close>. And a legal
  capture is accepted without being applied: the board of the result is the board of the
  input, the combat is pending.
\<close>

theorem makeMove_matching_move_counterexample:
  "readSquare (board exState) (m_from exPush) = Inr (Some (exPiece 3 Pawn Black 3 3))
   \<and> owner (exPiece 3 Pawn Black 3 3) = currentPlayer exState
   \<and> exPush \<in> set (getLegalMoves (board exState) (exPiece 3 Pawn Black 3 3) (m_from exPush))
   \<and> m_from (exPush\<lparr>isCapture := True\<rparr>) = m_from exPush
   \<and> m_to (exPush\<lparr>isCapture := True\<rparr>) = m_to exPush
   \<and> promotion (exPush\<lparr>isCapture := True\<rparr>) = promotion exPush
   \<and> makeMove exState (exPush\<lparr>isCapture := True\<rparr>) = Inl NoPieceToCapture
   \<and> makeMove (exState\<lparr>phase := Checkmate\<rparr>) (exPush\<lparr>isCapture := True\<rparr>) = Inl NoPieceToCapture
   \<and> exCapture \<in> set (getLegalMoves (board exState) (exPiece 3 Pawn Black 3 3) (m_from exCapture))
   \<and> makeMove exState exCapture
       = Inr (exState\<lparr>phase := Combat,
                pendingCombat := Some \<lparr>p_attacker = exPiece 3 Pawn Black 3 3,
                                       p_defender = (exPiece 1 King White 4 4)\<lparr>currentHp := 1\<rparr>,
                                       p_move = exCapture\<rparr>\<rparr>)
   \<and> board (exState\<lparr>phase := Combat,
                pendingCombat := Some \<lparr>p_attacker = exPiece 3 Pawn Black 3 3,
                                       p_defender = (exPiece 1 King White 4 4)\<lparr>currentHp := 1\<rparr>,
                                       p_move = exCapture\<rparr>\<rparr>) = board exState"
  by code_simp



end
